theory Spec2Isabelle
  imports Main "HOL-Library.Sublist"
begin

section \<open>The order reader: a dictionary-driven report parser\<close>

text \<open>
  A shallow embedding of \<^verbatim>\<open>src/order-reader/index.js\<close>. Strings are lists of code
  units (\<^typ>\<open>char\<close>, read as the code points 0 to 255), objects are property lists in
  the order in which the engine enumerates them, a thrown value is the left summand
  of a sum type, and a loop that may run forever is a partial function whose value
  \<^term>\<open>None\<close> means that it does not return. Only own properties are modelled: a
  header or a column name that coincides with an inherited property of every object
  (such as \<^verbatim>\<open>constructor\<close>) is outside the model.
\<close>

subsection \<open>Values, objects and thrown errors\<close>

datatype jsval =
    JStr string
  | JNull
  | JUndefined
  | JArr "jsval list"
  | JObj "(string \<times> jsval) list"

type_synonym obj = "(string \<times> jsval) list"

text \<open>
  What an \<^verbatim>\<open>ObjectBuilder\<close> holds under a key: the text captured for a header, or,
  under \<^verbatim>\<open>_meta\<close>, the warnings (a list of messages for each kind of warning).
\<close>

datatype capture =
    Text string
  | Warnings "(string \<times> string list) list"

type_synonym raw = "(string \<times> capture) list"

text \<open>
  What the source can throw. The string values it throws are kept structured:
  \<open>TableLines header lines columns\<close> is the message of \<^verbatim>\<open>field_followed_by_table\<close>,
  \<open>NoProcessor header type\<close> that of \<^verbatim>\<open>FieldDictionary.process\<close>,
  \<open>TwoTypes first second header\<close> that of \<^verbatim>\<open>identifyObjectType\<close> and
  \<open>NotCategorized raw\<close> that of \<^verbatim>\<open>cookObject\<close>.
\<close>

datatype error =
    ReferenceError string
  | TypeError string
  | TableLines string nat nat
  | NoProcessor string string
  | TwoTypes string string string
  | NotCategorized raw

text \<open>\<^verbatim>\<open>obj[k]\<close>: the own property, \<^term>\<open>None\<close> for \<^verbatim>\<open>undefined\<close>.\<close>

definition obj_get :: "(string \<times> 'v) list \<Rightarrow> string \<Rightarrow> 'v option" where
  "obj_get ob k = map_of ob k"

text \<open>
  The enumeration order of own properties: first the names that are array indices
  (the decimal numerals without a leading zero below \<open>2\<^sup>3\<^sup>2 - 1\<close>), by ascending
  value, then all other names in the order in which they were created. Numerals
  without leading zeros are ordered by their lengths and, at equal length, by their
  digits from the left.
\<close>

definition is_digit :: "char \<Rightarrow> bool" where
  "is_digit c = (c \<in> set ''0123456789'')"

definition digit_less :: "char \<Rightarrow> char \<Rightarrow> bool" where
  "digit_less c c' = (c' \<in> set (drop 1 (dropWhile (\<lambda>d. d \<noteq> c) ''0123456789'')))"

fun digits_less :: "string \<Rightarrow> string \<Rightarrow> bool" where
  "digits_less (c # cs) (c' # cs') = (digit_less c c' \<or> (c = c' \<and> digits_less cs cs'))"
| "digits_less cs cs' = False"

definition index_less :: "string \<Rightarrow> string \<Rightarrow> bool" where
  "index_less k k' = (length k < length k' \<or> (length k = length k' \<and> digits_less k k'))"

definition is_index :: "string \<Rightarrow> bool" where
  "is_index k =
     (if k = [] then False
      else if \<not> list_all is_digit k then False
      else if hd k = CHR ''0'' then k = ''0''
      else index_less k ''4294967295'')"

definition comes_before :: "string \<Rightarrow> string \<Rightarrow> bool" where
  "comes_before k k' =
     (if is_index k then (if is_index k' then index_less k k' else True)
      else False)"

text \<open>
  \<^verbatim>\<open>obj[k] = v\<close>: an existing property keeps its place, a new one is created where the
  enumeration order puts it.
\<close>

fun obj_replace :: "(string \<times> 'v) list \<Rightarrow> string \<Rightarrow> 'v \<Rightarrow> (string \<times> 'v) list" where
  "obj_replace [] k v = []"
| "obj_replace ((k', v') # ob) k v =
     (if k' = k then (k, v) # ob else (k', v') # obj_replace ob k v)"

fun obj_create :: "(string \<times> 'v) list \<Rightarrow> string \<Rightarrow> 'v \<Rightarrow> (string \<times> 'v) list" where
  "obj_create [] k v = [(k, v)]"
| "obj_create ((k', v') # ob) k v =
     (if comes_before k k' then (k, v) # (k', v') # ob else (k', v') # obj_create ob k v)"

definition obj_set :: "(string \<times> 'v) list \<Rightarrow> string \<Rightarrow> 'v \<Rightarrow> (string \<times> 'v) list" where
  "obj_set ob k v = (if k \<in> set (map fst ob) then obj_replace ob k v else obj_create ob k v)"

text \<open>
  Truthiness of a property read: \<^verbatim>\<open>undefined\<close> (an absent property, or one that holds
  it), \<^verbatim>\<open>null\<close> and \<^verbatim>\<open>''\<close> are falsy.
\<close>

fun truthy :: "jsval option \<Rightarrow> bool" where
  "truthy None = False"
| "truthy (Some (JStr s)) = (s \<noteq> [])"
| "truthy (Some JNull) = False"
| "truthy (Some JUndefined) = False"
| "truthy (Some (JArr xs)) = True"
| "truthy (Some (JObj ob)) = True"

fun truthy_capture :: "capture option \<Rightarrow> bool" where
  "truthy_capture None = False"
| "truthy_capture (Some (Text s)) = (s \<noteq> [])"
| "truthy_capture (Some (Warnings w)) = True"

text \<open>A capture as a value of the output, and inside a string concatenation.\<close>

fun capture_value :: "capture \<Rightarrow> jsval" where
  "capture_value (Text s) = JStr s"
| "capture_value (Warnings w) = JObj (map (\<lambda>(warnType, messages). (warnType, JArr (map JStr messages))) w)"

fun display :: "capture \<Rightarrow> string" where
  "display (Text s) = s"
| "display (Warnings w) = ''[object Object]''"

text \<open>
  \<^verbatim>\<open>a === b\<close> on two property reads. Arrays and objects compare by reference, and the
  two sides below are always read from two different records, so they never agree.
\<close>

fun strict_eq :: "jsval option \<Rightarrow> jsval option \<Rightarrow> bool" where
  "strict_eq None None = True"
| "strict_eq None (Some JUndefined) = True"
| "strict_eq (Some JUndefined) None = True"
| "strict_eq (Some JUndefined) (Some JUndefined) = True"
| "strict_eq (Some (JStr a)) (Some (JStr b)) = (a = b)"
| "strict_eq (Some JNull) (Some JNull) = True"
| "strict_eq _ _ = False"

subsection \<open>String helpers\<close>

definition LF :: char where "LF = CHR 0x0A"
definition CR :: char where "CR = CHR 0x0D"

text \<open>White space and line terminators of \<^verbatim>\<open>String.prototype.trim\<close> below code point 256.\<close>

definition is_space :: "char \<Rightarrow> bool" where
  "is_space c = (c \<in> set [CHR 0x09, CHR 0x0A, CHR 0x0B, CHR 0x0C, CHR 0x0D, CHR 0x20, CHR 0xA0])"

definition trim :: "string \<Rightarrow> string" where
  "trim s = rev (dropWhile is_space (rev (dropWhile is_space s)))"

text \<open>\<^verbatim>\<open>string.split(/\r?\n/)\<close>: always at least one piece.\<close>

fun splitLines :: "string \<Rightarrow> string list" where
  "splitLines [] = [[]]"
| "splitLines (c # cs) =
     (if c = LF then [] # splitLines cs
      else if c = CR \<and> cs \<noteq> [] \<and> hd cs = LF then [] # splitLines (tl cs)
      else (case splitLines cs of
              [] \<Rightarrow> [[c]]
            | l # ls \<Rightarrow> (c # l) # ls))"

text \<open>\<^verbatim>\<open>lines.join('\n')\<close>.\<close>

fun join_lines :: "string list \<Rightarrow> string" where
  "join_lines [] = []"
| "join_lines [l] = l"
| "join_lines (l # ls) = l @ LF # join_lines ls"

text \<open>
  \<^verbatim>\<open>xs.slice(start, end)\<close> with the relative indices of the language: a negative
  index counts from the end, and both are clamped to the array.
\<close>

definition slice_index :: "nat \<Rightarrow> int \<Rightarrow> nat" where
  "slice_index n i = (if i < 0 then nat (max (int n + i) 0) else min (nat i) n)"

definition slice :: "'a list \<Rightarrow> int \<Rightarrow> int \<Rightarrow> 'a list" where
  "slice xs start end =
     (let a = slice_index (length xs) start; b = slice_index (length xs) end
      in take (b - a) (drop a xs))"

definition slice_from :: "'a list \<Rightarrow> int \<Rightarrow> 'a list" where
  "slice_from xs start = drop (slice_index (length xs) start) xs"

text \<open>\<^verbatim>\<open>xs.findIndex(p)\<close>: the index of the first hit, or \<open>-1\<close>.\<close>

fun findIndex_from :: "('a \<Rightarrow> bool) \<Rightarrow> 'a list \<Rightarrow> int \<Rightarrow> int" where
  "findIndex_from p [] i = -1"
| "findIndex_from p (x # xs) i = (if p x then i else findIndex_from p xs (i + 1))"

definition findIndex :: "('a \<Rightarrow> bool) \<Rightarrow> 'a list \<Rightarrow> int" where
  "findIndex p xs = findIndex_from p xs 0"

subsection \<open>Field processors\<close>

text \<open>
  A processor configuration is the JSON object under a header of
  \<^verbatim>\<open>fields_by_header\<close>: the processor kind and its options, each of which may be
  absent.
\<close>

record fieldDef =
  fd_type :: string
  field :: "string option"
  field_name :: "string option"
  table_name :: "string option"
  num_columns :: "nat option"
  location_field :: "string option"
  contacts_field :: "string option"

text \<open>
  \<^verbatim>\<open>requiredOption\<close>: a falsy option (absent, \<^verbatim>\<open>''\<close> or \<^verbatim>\<open>0\<close>) makes it evaluate
  \<^verbatim>\<open>new RequiredOption(name)\<close>, whose constructor assigns to \<^verbatim>\<open>this\<close> without having
  called \<^verbatim>\<open>super\<close>; what is thrown is the engine's reference error, with its message.
\<close>

definition this_before_super :: error where
  "this_before_super =
     ReferenceError (''Must call super constructor in derived class before accessing ''
       @ [CHR 0x27] @ ''this'' @ [CHR 0x27] @ '' or returning from derived constructor'')"

definition requiredOption_str :: "string option \<Rightarrow> error + string" where
  "requiredOption_str val =
     (case val of None \<Rightarrow> Inl this_before_super
      | Some s \<Rightarrow> if s = [] then Inl this_before_super else Inr s)"

definition requiredOption_num :: "nat option \<Rightarrow> error + nat" where
  "requiredOption_num val =
     (case val of None \<Rightarrow> Inl this_before_super
      | Some n \<Rightarrow> if n = 0 then Inl this_before_super else Inr n)"

text \<open>A configured processor: the closure the factory returns.\<close>

type_synonym processor = "obj \<Rightarrow> string \<Rightarrow> string \<Rightarrow> error + obj"

definition trimmed_apply :: "string \<Rightarrow> processor" where
  "trimmed_apply fld ob header val = Inr (obj_set ob fld (JStr (trim val)))"

definition trimmed :: "fieldDef \<Rightarrow> error + processor" where
  "trimmed opts =
     (case requiredOption_str (field opts) of
        Inl e \<Rightarrow> Inl e
      | Inr fld \<Rightarrow> Inr (trimmed_apply fld))"

text \<open>
  \<^verbatim>\<open>_.zipObject(props, values)\<close>: assigns in order, so a repeated name keeps its last
  value, and a name without a value gets \<^verbatim>\<open>undefined\<close>.
\<close>

fun zipObject_into :: "obj \<Rightarrow> string list \<Rightarrow> string list \<Rightarrow> obj" where
  "zipObject_into ob [] vs = ob"
| "zipObject_into ob (k # ks) [] = zipObject_into (obj_set ob k JUndefined) ks []"
| "zipObject_into ob (k # ks) (v # vs) = zipObject_into (obj_set ob k (JStr v)) ks vs"

definition zipObject :: "string list \<Rightarrow> string list \<Rightarrow> obj" where
  "zipObject ks vs = zipObject_into [] ks vs"

text \<open>The row loop \<^verbatim>\<open>for (var i = 0; i < numRows; i++)\<close>, \<open>n\<close> rows still to read.\<close>

fun table_rows :: "string list \<Rightarrow> nat \<Rightarrow> nat \<Rightarrow> nat \<Rightarrow> jsval list" where
  "table_rows tableLines numColumns i 0 = []"
| "table_rows tableLines numColumns i (Suc n) =
     JObj (zipObject (slice tableLines 0 (int numColumns))
             (slice tableLines (int ((i + 1) * numColumns)) (int ((i + 2) * numColumns))))
       # table_rows tableLines numColumns (Suc i) n"

text \<open>
  The closure of \<^verbatim>\<open>field_followed_by_table\<close>. On a line count that the column count
  does not divide it first evaluates \<^verbatim>\<open>console.log(trimmedLines)\<close>; no such variable
  is in scope, so the \<^verbatim>\<open>throw\<close> on the next line is never reached.
  \<^verbatim>\<open>numRows\<close> is negative for an empty table and the loop then does not run.
\<close>

definition table_lines :: "string \<Rightarrow> string list" where
  "table_lines val = filter (\<lambda>s. s \<noteq> []) (map trim (slice_from (splitLines val) 1))"

definition field_followed_by_table_apply :: "string \<Rightarrow> string \<Rightarrow> nat \<Rightarrow> processor" where
  "field_followed_by_table_apply fieldName tableName numColumns ob header val =
     (case splitLines val of
        [] \<Rightarrow> Inl (TypeError ''Cannot read properties of undefined'')
      | line0 # rest \<Rightarrow>
          let simpleVal = trim line0;
              ob1 = obj_set ob fieldName (JStr simpleVal);
              tableLines = table_lines val
          in if length tableLines mod numColumns \<noteq> 0
             then Inl (ReferenceError ''trimmedLines is not defined'')
             else let numRows = length tableLines div numColumns - 1
                  in Inr (obj_set ob1 tableName
                            (JArr (table_rows tableLines numColumns 0 numRows))))"

definition field_followed_by_table :: "fieldDef \<Rightarrow> error + processor" where
  "field_followed_by_table opts =
     (case requiredOption_str (field_name opts) of
        Inl e \<Rightarrow> Inl e
      | Inr fieldName \<Rightarrow>
     (case requiredOption_str (table_name opts) of
        Inl e \<Rightarrow> Inl e
      | Inr tableName \<Rightarrow>
     (case requiredOption_num (num_columns opts) of
        Inl e \<Rightarrow> Inl e
      | Inr numColumns \<Rightarrow> Inr (field_followed_by_table_apply fieldName tableName numColumns))))"

text \<open>
  The tests of \<^verbatim>\<open>primary_secondary_location\<close> on one line. A dot matches no line
  terminator, so \<^verbatim>\<open>/^Contact Name (.*)$/\<close> needs the rest of the line free of them.
\<close>

definition starts_with :: "string \<Rightarrow> string \<Rightarrow> bool" where
  "starts_with p s = prefix p s"

definition capture_rest :: "string \<Rightarrow> string \<Rightarrow> string option" where
  "capture_rest p s =
     (if prefix p s \<and> (\<forall>c \<in> set (drop (length p) s). c \<noteq> LF \<and> c \<noteq> CR)
      then Some (drop (length p) s) else None)"

definition nullable :: "string option \<Rightarrow> jsval" where
  "nullable v = (case v of None \<Rightarrow> JNull | Some s \<Rightarrow> JStr s)"

definition truthy_str :: "string option \<Rightarrow> bool" where
  "truthy_str v = (case v of None \<Rightarrow> False | Some s \<Rightarrow> s \<noteq> [])"

text \<open>
  The loop \<^verbatim>\<open>for (var i = 0; i < contactLines.length; i += 2)\<close>: a name line, then
  a telephone line that may be missing at the end. Blank lines were filtered out, so
  a telephone line that exists is truthy.
\<close>

fun read_contacts :: "string list \<Rightarrow> jsval list" where
  "read_contacts [] = []"
| "read_contacts [nameLine] =
     (let contactName = capture_rest ''Contact Name '' nameLine
      in if truthy_str contactName
         then [JObj [(''name'', nullable contactName), (''phone'', JNull)]] else [])"
| "read_contacts (nameLine # phoneLine # rest) =
     (let contactName = capture_rest ''Contact Name '' nameLine;
          contactPhone = (if phoneLine \<noteq> [] then capture_rest ''Telephone '' phoneLine else None)
      in (if truthy_str contactName \<or> truthy_str contactPhone
          then [JObj [(''name'', nullable contactName), (''phone'', nullable contactPhone)]]
          else []) @ read_contacts rest)"

definition primary_secondary_location_apply :: "string \<Rightarrow> string \<Rightarrow> processor" where
  "primary_secondary_location_apply locationField contactsField ob header val =
     (let lines = splitLines val;
          contactIndex = findIndex (starts_with ''Contact '') lines;
          contactLines = filter (\<lambda>s. trim s \<noteq> []) (slice_from lines contactIndex);
          contacts = read_contacts contactLines;
          secondaryLocationHeader = findIndex (starts_with ''Secondary Location'') lines;
          locationLines = slice lines (secondaryLocationHeader + 1) contactIndex;
          location = trim (join_lines locationLines)
      in Inr (obj_set (obj_set ob contactsField (JArr contacts)) locationField (JStr location)))"

definition primary_secondary_location :: "fieldDef \<Rightarrow> error + processor" where
  "primary_secondary_location opts =
     (case requiredOption_str (location_field opts) of
        Inl e \<Rightarrow> Inl e
      | Inr locationField \<Rightarrow>
     (case requiredOption_str (contacts_field opts) of
        Inl e \<Rightarrow> Inl e
      | Inr contactsField \<Rightarrow> Inr (primary_secondary_location_apply locationField contactsField)))"

text \<open>
  \<^verbatim>\<open>FIELD_TYPES[fieldDef.type](opts)\<close>, up to the call of what it returns. A kind that
  the table does not hold reads \<^verbatim>\<open>undefined\<close>, and calling it is a type error. The
  table is an object literal, so a kind that names a method which every object
  inherits is called: most of these return something that is no function, and the
  type error comes when \<^verbatim>\<open>process\<close> calls the processor; two of them throw one
  themselves, and \<^verbatim>\<open>__proto__\<close> is no function.
\<close>

definition inherited_methods :: "string list" where
  "inherited_methods =
     [''constructor'', ''toString'', ''toLocaleString'', ''valueOf'', ''hasOwnProperty'',
      ''isPrototypeOf'', ''propertyIsEnumerable'', ''__lookupGetter__'', ''__lookupSetter__'']"

definition FIELD_TYPES :: "fieldDef \<Rightarrow> error + processor" where
  "FIELD_TYPES fieldDef =
     (if fd_type fieldDef = ''trimmed'' then trimmed fieldDef
      else if fd_type fieldDef = ''field_followed_by_table'' then field_followed_by_table fieldDef
      else if fd_type fieldDef = ''primary_secondary_location''
        then primary_secondary_location fieldDef
      else if fd_type fieldDef \<in> set inherited_methods
        then Inl (TypeError ''processor is not a function'')
      else if fd_type fieldDef = ''__defineGetter__''
        then Inl (TypeError ''Object.prototype.__defineGetter__: Expecting function'')
      else if fd_type fieldDef = ''__defineSetter__''
        then Inl (TypeError ''Object.prototype.__defineSetter__: Expecting function'')
      else Inl (TypeError ''FIELD_TYPES[fieldDef.type] is not a function''))"

subsection \<open>The field dictionary\<close>

text \<open>
  A dictionary maps type names to type definitions (\<open>type_fields\<close> is the property
  \<^verbatim>\<open>fields\<close> of one); the reserved entry \<^verbatim>\<open>options\<close> is kept apart. The separator pattern is held as the syntax tree of
  the pattern text: \<^verbatim>\<open>new RegExp(sep)\<close> adds nothing to it.
\<close>

datatype regex =
    Chr char
  | Bol
  | Eol
  | Eps
  | Cat regex regex
  | Alt regex regex
  | Plus regex

record belongs =
  owner_as :: string
  match_on :: string

record typeDef =
  type_fields :: "(string \<times> string) list option"
  fields_by_header :: "(string \<times> fieldDef) list option"
  belongs_to :: "belongs option"

record dict_options =
  record_separator :: "regex option"

record dictionary =
  types :: "(string \<times> typeDef) list"
  options :: "dict_options option"

text \<open>The setter of \<^verbatim>\<open>data\<close>: every type gets a \<^verbatim>\<open>fields_by_header\<close>, the dictionary an \<^verbatim>\<open>options\<close>.\<close>

definition default_fields_by_header :: "typeDef \<Rightarrow> typeDef" where
  "default_fields_by_header td =
     (case fields_by_header td of
        None \<Rightarrow> td\<lparr>fields_by_header := Some []\<rparr>
      | Some fbh \<Rightarrow> td)"

definition FieldDictionary :: "dictionary \<Rightarrow> dictionary" where
  "FieldDictionary newData =
     \<lparr>types = map (\<lambda>(typeName, td). (typeName, default_fields_by_header td)) (types newData),
      options = (case options newData of
                   None \<Rightarrow> Some \<lparr>record_separator = None\<rparr>
                 | Some opts \<Rightarrow> Some opts)\<rparr>"

definition or_empty :: "('a \<times> 'b) list option \<Rightarrow> ('a \<times> 'b) list" where
  "or_empty m = (case m of None \<Rightarrow> [] | Some kvs \<Rightarrow> kvs)"

definition type_headers :: "typeDef \<Rightarrow> string list" where
  "type_headers td = map snd (or_empty (type_fields td)) @ map fst (or_empty (fields_by_header td))"

definition allHeaders :: "dictionary \<Rightarrow> string list" where
  "allHeaders d = concat (map (\<lambda>(typeName, td). type_headers td) (types d))"

definition typesForHeader :: "dictionary \<Rightarrow> string \<Rightarrow> string list" where
  "typesForHeader d header =
     map fst (filter (\<lambda>(typeName, td). header \<in> set (type_headers td)) (types d))"

definition ownerOf :: "dictionary \<Rightarrow> string \<Rightarrow> belongs option" where
  "ownerOf d typeName =
     (case map_of (types d) typeName of None \<Rightarrow> None | Some td \<Rightarrow> belongs_to td)"

text \<open>\<^verbatim>\<open>FieldDictionary.process\<close>; a capture other than \<^verbatim>\<open>_meta\<close> has to be a string.\<close>

definition apply_processor :: "error + processor \<Rightarrow> obj \<Rightarrow> string \<Rightarrow> capture \<Rightarrow> error + obj" where
  "apply_processor made ob header val =
     (case made of
        Inl e \<Rightarrow> Inl e
      | Inr processor \<Rightarrow>
          (case val of
             Text s \<Rightarrow> processor ob header s
           | Warnings w \<Rightarrow> Inl (TypeError ''value is not a string'')))"

definition process :: "dictionary \<Rightarrow> obj \<Rightarrow> string \<Rightarrow> string \<Rightarrow> capture \<Rightarrow> error + obj" where
  "process d ob typeName header val =
     (if header = ''_meta'' then Inr (obj_set ob ''_meta'' (capture_value val))
      else case map_of (types d) typeName of
        None \<Rightarrow> Inl (TypeError ''Cannot read properties of undefined'')
      | Some td \<Rightarrow>
         (case type_fields td of
            None \<Rightarrow> Inl (TypeError ''Cannot convert undefined or null to object'')
          | Some fs \<Rightarrow>
             (case find (\<lambda>(fld, h). h = header) fs of
                Some (fld, h) \<Rightarrow>
                  apply_processor (trimmed (fieldDef.make ''trimmed'' (Some fld) None None None None None))
                    ob header val
              | None \<Rightarrow>
                 (case fields_by_header td of
                    None \<Rightarrow> Inl (TypeError ''Cannot convert undefined or null to object'')
                  | Some fbh \<Rightarrow>
                     (case find (\<lambda>(h, fieldDef). h = header) fbh of
                        Some (h, fieldDef) \<Rightarrow> apply_processor (FIELD_TYPES fieldDef) ob header val
                      | None \<Rightarrow> Inl (NoProcessor header typeName))))))"

text \<open>
  The separator pattern is run with \<^verbatim>\<open>exec\<close> for its truth value only, so a pattern
  is given the declarative reading: \<open>re_match r s i j\<close> holds when \<open>r\<close> matches \<open>s\<close>
  from position \<open>i\<close> up to \<open>j\<close>. A repetition is a chain of at most \<open>length s\<close>
  advancing matches after the first one.
\<close>

primrec chain :: "(nat \<Rightarrow> nat \<Rightarrow> bool) \<Rightarrow> nat \<Rightarrow> nat \<Rightarrow> nat \<Rightarrow> bool" where
  "chain R 0 i j = R i j"
| "chain R (Suc n) i j = (R i j \<or> list_ex (\<lambda>k. R i k \<and> chain R n k j) [Suc i..<Suc j])"

primrec re_match :: "regex \<Rightarrow> string \<Rightarrow> nat \<Rightarrow> nat \<Rightarrow> bool" where
  "re_match (Chr c) s i j = (i < length s \<and> s ! i = c \<and> j = Suc i)"
| "re_match Bol s i j = (i = 0 \<and> j = i)"
| "re_match Eol s i j = (i = length s \<and> j = i)"
| "re_match Eps s i j = (j = i)"
| "re_match (Cat a b) s i j = list_ex (\<lambda>k. re_match a s i k \<and> re_match b s k j) [i..<Suc j]"
| "re_match (Alt a b) s i j = (re_match a s i j \<or> re_match b s i j)"
| "re_match (Plus a) s i j = chain (re_match a s) (length s) i j"

text \<open>\<^verbatim>\<open>regexp.exec(line)\<close> as a condition, for a pattern without flags: a match anywhere.\<close>

definition regexp_test :: "regex \<Rightarrow> string \<Rightarrow> bool" where
  "regexp_test r s =
     list_ex (\<lambda>i. list_ex (\<lambda>j. re_match r s i j) [i..<Suc (length s)]) [0..<Suc (length s)]"

text \<open>\<^verbatim>\<open>/^_+$/\<close>\<close>

definition DEFAULT_RECORD_SEPARATOR :: regex where
  "DEFAULT_RECORD_SEPARATOR = Cat Bol (Cat (Plus (Chr (CHR ''_''))) Eol)"

text \<open>
  The getter \<^verbatim>\<open>recordSeparator\<close>. The empty pattern text, whose tree is \<^term>\<open>Eps\<close>, is
  falsy and gives the default.
\<close>

definition recordSeparator :: "dictionary \<Rightarrow> error + regex" where
  "recordSeparator d =
     (case options d of
        None \<Rightarrow> Inl (TypeError ''Cannot read properties of undefined'')
      | Some opts \<Rightarrow>
          (case record_separator opts of
             None \<Rightarrow> Inr DEFAULT_RECORD_SEPARATOR
           | Some sep \<Rightarrow> if sep = Eps then Inr DEFAULT_RECORD_SEPARATOR else Inr sep))"

subsection \<open>The header matcher\<close>

text \<open>
  \<^verbatim>\<open>buildDictionaryRegex\<close> escapes every header and joins them with a bar, so the
  compiled pattern is the ordered alternation of the literal headers; it is kept as
  the list of its alternatives. The join of no terms is the empty pattern, which has
  the one alternative \<^verbatim>\<open>''\<close>.
\<close>

definition buildDictionaryRegex :: "dictionary \<Rightarrow> string list" where
  "buildDictionaryRegex d =
     (let regexTerms = allHeaders d in if regexTerms = [] then [[]] else regexTerms)"

text \<open>
  One \<^verbatim>\<open>exec\<close> of the global pattern from \<^verbatim>\<open>lastIndex\<close>: the leftmost position where
  an alternative matches, and there the first alternative that does. A match is its
  index and its text.
\<close>

fun search :: "string list \<Rightarrow> string \<Rightarrow> nat \<Rightarrow> (nat \<times> string) option" where
  "search alts s p =
     (case find (\<lambda>h. prefix h s) alts of
        Some h \<Rightarrow> Some (p, h)
      | None \<Rightarrow> (case s of [] \<Rightarrow> None | c # cs \<Rightarrow> search alts cs (Suc p)))"

definition regex_exec :: "string list \<Rightarrow> string \<Rightarrow> nat \<Rightarrow> (nat \<times> string) option" where
  "regex_exec alts s lastIndex =
     (if length s < lastIndex then None else search alts (drop lastIndex s) lastIndex)"

text \<open>
  \<^verbatim>\<open>while (m = regexp.exec(s)) results.push(m)\<close>. After a match \<^verbatim>\<open>lastIndex\<close> is the end
  of the match, so an empty match leaves it where it was and the loop cannot end.
\<close>

partial_function (option) allMatches_from ::
  "string list \<Rightarrow> string \<Rightarrow> nat \<Rightarrow> (nat \<times> string) list \<Rightarrow> (nat \<times> string) list option" where
  "allMatches_from regexp s lastIndex results =
     (case regex_exec regexp s lastIndex of
        None \<Rightarrow> Some results
      | Some m \<Rightarrow> allMatches_from regexp s (fst m + length (snd m)) (results @ [m]))"

declare allMatches_from.simps [code]

definition allMatches :: "string list \<Rightarrow> string \<Rightarrow> (nat \<times> string) list option" where
  "allMatches regexp s = allMatches_from regexp s 0 []"

record StringRegion =
  "value" :: string
  isMatch :: bool

text \<open>The \<^verbatim>\<open>forEach\<close> of \<^verbatim>\<open>splitByMatches\<close>, with the cursor and the regions so far.\<close>

fun split_regions ::
  "string \<Rightarrow> (nat \<times> string) list \<Rightarrow> nat \<Rightarrow> StringRegion list \<Rightarrow> nat \<times> StringRegion list" where
  "split_regions string [] cursor results = (cursor, results)"
| "split_regions string ((index, text) # matches) cursor results =
     (let results1 =
            (if cursor \<noteq> index
             then results @ [\<lparr>value = slice string (int cursor) (int index), isMatch = False\<rparr>]
             else results)
      in split_regions string matches (index + length text)
           (results1 @ [\<lparr>value = text, isMatch = True\<rparr>]))"

definition splitByMatches :: "string list \<Rightarrow> string \<Rightarrow> StringRegion list option" where
  "splitByMatches regexp string =
     (case allMatches regexp string of
        None \<Rightarrow> None
      | Some matches \<Rightarrow>
          (case split_regions string matches 0 [] of
             (cursor, results) \<Rightarrow>
               Some (if cursor \<noteq> length string \<or> results = []
                     then results @ [\<lparr>value = slice_from string (int cursor), isMatch = False\<rparr>]
                     else results)))"

subsection \<open>The object builder\<close>

text \<open>
  \<^verbatim>\<open>ObjectBuilder.warn\<close>. The file is in strict mode: once a header named \<^verbatim>\<open>_meta\<close> has
  put a non-empty string where the warnings go, adding a warning is a type error.
\<close>

definition push_message :: "(string \<times> string list) list \<Rightarrow> string \<Rightarrow> string \<Rightarrow> (string \<times> string list) list" where
  "push_message meta warnType message =
     (case obj_get meta warnType of
        None \<Rightarrow> obj_set meta warnType [message]
      | Some messages \<Rightarrow> obj_set meta warnType (messages @ [message]))"

definition warn :: "raw \<Rightarrow> string \<Rightarrow> string \<Rightarrow> error + raw" where
  "warn object warnType message =
     (let object1 = (if \<not> truthy_capture (obj_get object ''_meta'')
                     then obj_set object ''_meta'' (Warnings []) else object)
      in case obj_get object1 ''_meta'' of
           Some (Warnings meta) \<Rightarrow>
             Inr (obj_set object1 ''_meta'' (Warnings (push_message meta warnType message)))
         | _ \<Rightarrow> Inl (TypeError ''Cannot create property on string''))"

definition repeated_message :: "string \<Rightarrow> capture \<Rightarrow> string" where
  "repeated_message fld old =
     ''Repeated value for '' @ [CHR 0x27] @ fld @ [CHR 0x27] @ '', '' @ [CHR 0x27] @ display old @ [CHR 0x27]"

definition store :: "raw \<Rightarrow> string \<Rightarrow> string \<Rightarrow> error + raw" where
  "store object fld val =
     (case obj_get object fld of
        None \<Rightarrow> Inr (obj_set object fld (Text val))
      | Some old \<Rightarrow>
          if truthy_capture (Some old)
          then (case warn object ''ignored_text'' (repeated_message fld old) of
                  Inl e \<Rightarrow> Inl e
                | Inr object1 \<Rightarrow> Inr (obj_set object1 fld (Text val)))
          else Inr (obj_set object fld (Text val)))"

definition isEmpty :: "raw \<Rightarrow> bool" where
  "isEmpty object = (let keys = map fst object in keys = [] \<or> keys = [''_meta''])"

subsection \<open>Cooking a record\<close>

text \<open>What goes to the console: the two messages the parser can print.\<close>

datatype log =
    NoOwner string "jsval option"
  | Skipping string

text \<open>\<^verbatim>\<open>identifyObjectType\<close>: the \<^verbatim>\<open>forEach\<close> over the keys, with \<^verbatim>\<open>objectType\<close> so far.\<close>

fun identify_from :: "dictionary \<Rightarrow> string list \<Rightarrow> string option \<Rightarrow> error + string option" where
  "identify_from d [] objectType = Inr objectType"
| "identify_from d (header # keys) objectType =
     (case typesForHeader d header of
        [typeName] \<Rightarrow>
          (case objectType of
             None \<Rightarrow> identify_from d keys (Some typeName)
           | Some seen \<Rightarrow>
               if seen \<noteq> typeName then Inl (TwoTypes seen typeName header)
               else identify_from d keys objectType)
      | _ \<Rightarrow> identify_from d keys objectType)"

definition identifyObjectType :: "raw \<Rightarrow> dictionary \<Rightarrow> error + string option" where
  "identifyObjectType rawFields d = identify_from d (map fst rawFields) None"

text \<open>The \<^verbatim>\<open>forEach\<close> of \<^verbatim>\<open>cookObject\<close> that runs \<^verbatim>\<open>dictionary.process\<close> on every entry.\<close>

fun process_all :: "dictionary \<Rightarrow> string \<Rightarrow> raw \<Rightarrow> obj \<Rightarrow> error + obj" where
  "process_all d objectType [] result = Inr result"
| "process_all d objectType ((header, val) # entries) result =
     (case process d result objectType header val of
        Inl e \<Rightarrow> Inl e
      | Inr result1 \<Rightarrow> process_all d objectType entries result1)"

text \<open>\<^verbatim>\<open>o[matchField] === result[matchField]\<close> on a top-level record.\<close>

fun owner_matches :: "string \<Rightarrow> obj \<Rightarrow> jsval \<Rightarrow> bool" where
  "owner_matches matchField result (JObj ob) =
     strict_eq (obj_get ob matchField) (obj_get result matchField)"
| "owner_matches matchField result other = False"

text \<open>\<^verbatim>\<open>currObjects.find(...)\<close>, as the position of the record found.\<close>

definition find_owner :: "string \<Rightarrow> obj \<Rightarrow> jsval list \<Rightarrow> nat option" where
  "find_owner matchField result currObjects =
     (case filter (\<lambda>i. owner_matches matchField result (currObjects ! i)) [0..<length currObjects] of
        [] \<Rightarrow> None
      | i # rest \<Rightarrow> Some i)"

text \<open>
  \<^verbatim>\<open>if (!ownerObj[owner.as]) ownerObj[owner.as] = []; ownerObj[owner.as].push(result)\<close>:
  a truthy property that is no array has no \<^verbatim>\<open>push\<close>.
\<close>

definition push_child :: "string \<Rightarrow> jsval \<Rightarrow> obj \<Rightarrow> error + jsval" where
  "push_child as_name ownerObj result =
     (case ownerObj of
        JObj ob \<Rightarrow>
          (let ob1 = (if \<not> truthy (obj_get ob as_name) then obj_set ob as_name (JArr []) else ob)
           in case obj_get ob1 as_name of
                Some (JArr children) \<Rightarrow>
                  Inr (JObj (obj_set ob1 as_name (JArr (children @ [JObj result]))))
              | _ \<Rightarrow> Inl (TypeError ''push is not a function''))
      | _ \<Rightarrow> Inl (TypeError ''push is not a function''))"

text \<open>\<^verbatim>\<open>cookObject\<close> returns the top-level records and what it printed.\<close>

definition place_object :: "belongs option \<Rightarrow> obj \<Rightarrow> jsval list \<Rightarrow> error + (jsval list \<times> log list)" where
  "place_object owner result currObjects =
     (case owner of
        None \<Rightarrow> Inr (currObjects @ [JObj result], [])
      | Some own \<Rightarrow>
          (case find_owner (match_on own) result currObjects of
             None \<Rightarrow> Inr (currObjects, [NoOwner (match_on own) (obj_get result (match_on own))])
           | Some i \<Rightarrow>
               (case push_child (owner_as own) (currObjects ! i) result of
                  Inl e \<Rightarrow> Inl e
                | Inr ownerObj \<Rightarrow> Inr (currObjects[i := ownerObj], []))))"

definition cookObject :: "raw \<Rightarrow> jsval list \<Rightarrow> dictionary \<Rightarrow> error + (jsval list \<times> log list)" where
  "cookObject rawFields currObjects d =
     (case identifyObjectType rawFields d of
        Inl e \<Rightarrow> Inl e
      | Inr None \<Rightarrow> Inl (NotCategorized rawFields)
      | Inr (Some objectType) \<Rightarrow>
          (case process_all d objectType rawFields [] of
             Inl e \<Rightarrow> Inl e
           | Inr result \<Rightarrow> place_object (ownerOf d objectType) result currObjects))"

subsection \<open>The parser\<close>

text \<open>
  The constructor wraps the dictionary and compiles the header pattern; it calls
  nothing that throws.
\<close>

record parser =
  dictionary :: dictionary
  regex :: "string list"

definition OrderParser :: "dictionary \<Rightarrow> error + parser" where
  "OrderParser d =
     Inr \<lparr>dictionary = FieldDictionary d, regex = buildDictionaryRegex (FieldDictionary d)\<rparr>"

text \<open>
  The variables that the handlers of \<^verbatim>\<open>parse\<close> share: the records produced, the
  object of the current builder, the open field (header and text so far), and the
  console.
\<close>

record pstate =
  objects :: "jsval list"
  currObject :: raw
  multilineField :: "(string \<times> string) option"
  console :: "log list"

definition initial :: pstate where
  "initial = \<lparr>objects = [], currObject = [], multilineField = None, console = []\<rparr>"

definition finishMultilineField :: "pstate \<Rightarrow> error + pstate" where
  "finishMultilineField st =
     (case multilineField st of
        None \<Rightarrow> Inl (TypeError ''Cannot read properties of null'')
      | Some (header, val) \<Rightarrow>
          (case store (currObject st) header val of
             Inl e \<Rightarrow> Inl e
           | Inr object \<Rightarrow> Inr (st\<lparr>currObject := object, multilineField := None\<rparr>)))"

text \<open>\<^verbatim>\<open>if (multilineField) finishMultilineField()\<close>\<close>

definition finish_open :: "pstate \<Rightarrow> error + pstate" where
  "finish_open st = (if multilineField st \<noteq> None then finishMultilineField st else Inr st)"

text \<open>\<^verbatim>\<open>if (!currObject.isEmpty) cookObject(currObject.object, objects, this.dictionary)\<close>\<close>

definition cook_current :: "parser \<Rightarrow> pstate \<Rightarrow> error + pstate" where
  "cook_current P st =
     (if \<not> isEmpty (currObject st)
      then (case cookObject (currObject st) (objects st) (dictionary P) of
              Inl e \<Rightarrow> Inl e
            | Inr (objs, printed) \<Rightarrow> Inr (st\<lparr>objects := objs, console := console st @ printed\<rparr>))
      else Inr st)"

definition ignored_message :: "string \<Rightarrow> string" where
  "ignored_message text = ''Ignored header: '' @ [CHR 0x27] @ text @ [CHR 0x27]"

text \<open>
  The loop over the regions of one line. A header region takes the region after it,
  whatever that is, as its text, and the loop steps over that region.
\<close>

fun walk :: "pstate \<Rightarrow> StringRegion list \<Rightarrow> error + pstate" where
  "walk st [] = Inr st"
| "walk st (part # rest) =
     (if \<not> isMatch part then
        (case multilineField st of
           Some (header, val) \<Rightarrow>
             walk (st\<lparr>multilineField := Some (header, val @ value part)\<rparr>) rest
         | None \<Rightarrow>
             if trim (value part) \<noteq> []
             then (case warn (currObject st) ''ignored_text'' (ignored_message (value part)) of
                     Inl e \<Rightarrow> Inl e
                   | Inr object \<Rightarrow> walk (st\<lparr>currObject := object\<rparr>) rest)
             else walk st rest)
      else
        (case finish_open st of
           Inl e \<Rightarrow> Inl e
         | Inr st1 \<Rightarrow>
             (case rest of
                [] \<Rightarrow> walk (st1\<lparr>multilineField := Some (value part, [])\<rparr>) []
              | next_part # rest1 \<Rightarrow>
                  walk (st1\<lparr>multilineField := Some (value part, value next_part)\<rparr>) rest1)))"

text \<open>
  The handler of \<^verbatim>\<open>line\<close>. Its value is \<^term>\<open>None\<close> when the header matcher does not
  return; a value thrown inside it is thrown out of the event loop, and the promise
  of \<^verbatim>\<open>parse\<close> is then never settled.
\<close>

definition on_line :: "parser \<Rightarrow> pstate \<Rightarrow> string \<Rightarrow> (error + pstate) option" where
  "on_line P st line =
     (case recordSeparator (dictionary P) of
        Inl e \<Rightarrow> Some (Inl e)
      | Inr sep \<Rightarrow>
          if regexp_test sep line
          then Some (case finish_open st of
                       Inl e \<Rightarrow> Inl e
                     | Inr st1 \<Rightarrow>
                         (case cook_current P st1 of
                            Inl e \<Rightarrow> Inl e
                          | Inr st2 \<Rightarrow> Inr (st2\<lparr>currObject := []\<rparr>)))
          else
            (let st1 = (case multilineField st of
                          None \<Rightarrow> st
                        | Some (header, val) \<Rightarrow> st\<lparr>multilineField := Some (header, val @ [LF])\<rparr>)
             in case splitByMatches (regex P) line of
                  None \<Rightarrow> None
                | Some parts \<Rightarrow>
                    Some (case walk st1 parts of
                            Inl e \<Rightarrow> Inl e
                          | Inr st2 \<Rightarrow>
                              if parts = [] \<and> trim line \<noteq> []
                              then Inr (st2\<lparr>console := console st2 @ [Skipping line]\<rparr>)
                              else Inr st2)))"

text \<open>The handler of \<^verbatim>\<open>close\<close>, which resolves the promise with the records.\<close>

definition on_close :: "parser \<Rightarrow> pstate \<Rightarrow> error + jsval list" where
  "on_close P st =
     (case finish_open st of
        Inl e \<Rightarrow> Inl e
      | Inr st1 \<Rightarrow>
          (case cook_current P st1 of
             Inl e \<Rightarrow> Inl e
           | Inr st2 \<Rightarrow> Inr (objects st2)))"

fun run_lines :: "parser \<Rightarrow> pstate \<Rightarrow> string list \<Rightarrow> (error + pstate) option" where
  "run_lines P st [] = Some (Inr st)"
| "run_lines P st (line # lines) =
     (case on_line P st line of
        None \<Rightarrow> None
      | Some (Inl e) \<Rightarrow> Some (Inl e)
      | Some (Inr st1) \<Rightarrow> run_lines P st1 lines)"

text \<open>\<^verbatim>\<open>parse\<close> on the lines that the line reader delivers.\<close>

definition parse_lines :: "parser \<Rightarrow> string list \<Rightarrow> (error + jsval list) option" where
  "parse_lines P lines =
     (case run_lines P initial lines of
        None \<Rightarrow> None
      | Some (Inl e) \<Rightarrow> Some (Inl e)
      | Some (Inr st) \<Rightarrow> Some (on_close P st))"

text \<open>
  The line reader of the platform (\<^verbatim>\<open>readline.createInterface\<close>) on a text given as
  a whole: a line ends at \<^verbatim>\<open>\n\<close>, \<^verbatim>\<open>\r\n\<close> or \<^verbatim>\<open>\r\<close>, and what follows the last line end
  is a line only if it is not empty. \<open>cur\<close> is the line being read, reversed.
\<close>

fun readline_from :: "string \<Rightarrow> string \<Rightarrow> string list" where
  "readline_from cur [] = (if cur = [] then [] else [rev cur])"
| "readline_from cur (c # cs) =
     (if c = LF then rev cur # readline_from [] cs
      else if c = CR then rev cur # readline_from [] (if cs \<noteq> [] \<and> hd cs = LF then tl cs else cs)
      else readline_from (c # cur) cs)"

definition readline :: "string \<Rightarrow> string list" where
  "readline text = readline_from [] text"

definition parse :: "parser \<Rightarrow> string \<Rightarrow> (error + jsval list) option" where
  "parse P text = parse_lines P (readline text)"

text \<open>\<^verbatim>\<open>new OrderParser(d).parse(text)\<close>\<close>

definition parse_with :: "dictionary \<Rightarrow> string \<Rightarrow> (error + jsval list) option" where
  "parse_with d text = (case OrderParser d of Inl e \<Rightarrow> Some (Inl e) | Inr P \<Rightarrow> parse P text)"

subsection \<open>Dictionaries and inputs of the examples\<close>

definition table_opts :: fieldDef where
  "table_opts =
     \<lparr>fd_type = ''field_followed_by_table'', field = None, field_name = Some ''due'',
      table_name = Some ''items'', num_columns = Some 2, location_field = None,
      contacts_field = None\<rparr>"

definition table_dict :: dictionary where
  "table_dict =
     \<lparr>types = [(''Order'', \<lparr>type_fields = Some [], fields_by_header = Some [(''Due:'', table_opts)],
                              belongs_to = None\<rparr>)],
      options = None\<rparr>"

text \<open>A table capture whose first line, the rest of the header's own line, is empty.\<close>

definition blank_first :: string where
  "blank_first = [LF] @ ''A'' @ [LF] @ ''B'' @ [LF] @ ''1'' @ [LF] @ ''2''"

text \<open>A report with three table lines for two columns.\<close>

definition uneven_text :: string where
  "uneven_text = ''Due: x'' @ [LF] @ ''A'' @ [LF] @ ''B'' @ [LF] @ ''1''"

definition foo_dict :: dictionary where
  "foo_dict =
     \<lparr>types = [(''Order'', \<lparr>type_fields = Some [(''foo'', ''Foo:'')], fields_by_header = None,
                              belongs_to = None\<rparr>)],
      options = None\<rparr>"

text \<open>A dictionary whose one type declares no header.\<close>

definition no_header_dict :: dictionary where
  "no_header_dict =
     \<lparr>types = [(''Order'', \<lparr>type_fields = Some [], fields_by_header = None, belongs_to = None\<rparr>)],
      options = None\<rparr>"

text \<open>
  The votes of a capture, in the words of the specification: one vote for each header
  that exactly one type declares.
\<close>

definition votes :: "dictionary \<Rightarrow> string list \<Rightarrow> string list" where
  "votes d keys =
     concat (map (\<lambda>header. case typesForHeader d header of [typeName] \<Rightarrow> [typeName] | _ \<Rightarrow> [])
               keys)"

text \<open>Two types that share one header.\<close>

definition two_type_dict :: dictionary where
  "two_type_dict =
     \<lparr>types = [(''Order'', \<lparr>type_fields = Some [(''foo'', ''Foo:''), (''both'', ''Shared:'')],
                              fields_by_header = None, belongs_to = None\<rparr>),
               (''Suborder'', \<lparr>type_fields = Some [(''bar'', ''Bar:''), (''both'', ''Shared:'')],
                              fields_by_header = None, belongs_to = None\<rparr>)],
      options = None\<rparr>"


text \<open>The dictionary of the test of ownership, with \<^verbatim>\<open>match_on\<close> where the test writes \<^verbatim>\<open>by\<close>.\<close>

definition owner_dict :: dictionary where
  "owner_dict =
     \<lparr>types = [(''Order'', \<lparr>type_fields = Some [(''foo'', ''Foo:'')], fields_by_header = None,
                              belongs_to = None\<rparr>),
               (''Suborder'', \<lparr>type_fields = Some [(''foo'', ''foo:''), (''bar'', ''bar:'')],
                              fields_by_header = None,
                              belongs_to = Some \<lparr>owner_as = ''suborders'', match_on = ''foo''\<rparr>\<rparr>)],
      options = None\<rparr>"


text \<open>A pattern without the anchors \<^verbatim>\<open>^\<close> and \<^verbatim>\<open>$\<close>.\<close>

fun anchor_free :: "regex \<Rightarrow> bool" where
  "anchor_free (Chr c) = True"
| "anchor_free Bol = False"
| "anchor_free Eol = False"
| "anchor_free Eps = True"
| "anchor_free (Cat a b) = (anchor_free a \<and> anchor_free b)"
| "anchor_free (Alt a b) = (anchor_free a \<and> anchor_free b)"
| "anchor_free (Plus a) = anchor_free a"

text \<open>The pattern text \<^verbatim>\<open>---\<close>, and a dictionary with it as the separator.\<close>

definition dashes :: regex where
  "dashes = Cat (Chr (CHR ''-'')) (Cat (Chr (CHR ''-'')) (Chr (CHR ''-'')))"

definition dashes_options :: dict_options where
  "dashes_options = \<lparr>record_separator = Some dashes\<rparr>"

definition dashes_dict :: dictionary where
  "dashes_dict =
     \<lparr>types = [(''Order'', \<lparr>type_fields = Some [(''foo'', ''Foo:'')], fields_by_header = None,
                              belongs_to = None\<rparr>)],
      options = Some dashes_options\<rparr>"

text \<open>The dictionary of the test of multi-line fields.\<close>

definition fizz_buzz_dict :: dictionary where
  "fizz_buzz_dict =
     \<lparr>types = [(''Order'', \<lparr>type_fields = Some [(''fizz'', ''Fizz:''), (''buzz'', ''Buzz:'')],
                              fields_by_header = None, belongs_to = None\<rparr>)],
      options = None\<rparr>"

text \<open>
  Processor configurations in the words of the specification: one that names no
  known kind, and one of a known kind that lacks an option the kind requires.
\<close>

definition unknown_kind :: "fieldDef \<Rightarrow> bool" where
  "unknown_kind fd =
     (fd_type fd \<notin> set [''trimmed'', ''field_followed_by_table'', ''primary_secondary_location''])"

definition missing_option :: "fieldDef \<Rightarrow> bool" where
  "missing_option fd =
     (if fd_type fd = ''trimmed'' then field fd = None
      else if fd_type fd = ''field_followed_by_table''
        then field_name fd = None \<or> table_name fd = None \<or> num_columns fd = None
      else if fd_type fd = ''primary_secondary_location''
        then location_field fd = None \<or> contacts_field fd = None
      else False)"

text \<open>A table configuration without \<^verbatim>\<open>num_columns\<close>, a configuration of an unknown kind.\<close>

definition no_columns_opts :: fieldDef where
  "no_columns_opts =
     \<lparr>fd_type = ''field_followed_by_table'', field = None, field_name = Some ''due'',
      table_name = Some ''items'', num_columns = None, location_field = None,
      contacts_field = None\<rparr>"

definition unknown_opts :: fieldDef where
  "unknown_opts =
     \<lparr>fd_type = ''table'', field = None, field_name = Some ''due'',
      table_name = Some ''items'', num_columns = Some 2, location_field = None,
      contacts_field = None\<rparr>"

definition misconfigured_type :: typeDef where
  "misconfigured_type =
     \<lparr>type_fields = Some [(''foo'', ''Foo:'')],
      fields_by_header = Some [(''Due:'', no_columns_opts), (''Tab:'', unknown_opts)],
      belongs_to = None\<rparr>"

definition misconfigured_dict :: dictionary where
  "misconfigured_dict = \<lparr>types = [(''Order'', misconfigured_type)], options = None\<rparr>"

text \<open>The messages under \<^verbatim>\<open>_meta.ignored_text\<close> of a builder.\<close>

definition ignored_text :: "raw \<Rightarrow> string list" where
  "ignored_text object =
     (case obj_get object ''_meta'' of
        Some (Warnings w) \<Rightarrow> (case obj_get w ''ignored_text'' of Some messages \<Rightarrow> messages | None \<Rightarrow> [])
      | _ \<Rightarrow> [])"

text \<open>The report of the test of a repeated field, up to its second record.\<close>

definition repeated_text :: string where
  "repeated_text = ''Foo: 1'' @ [LF] @ ''Foo: 2'' @ [LF] @ ''____'' @ [LF] @ ''Foo: 3''"

text \<open>No type of the dictionary declares an owner.\<close>

definition no_owners :: "dictionary \<Rightarrow> bool" where
  "no_owners d = list_all (\<lambda>(typeName, td). belongs_to td = None) (types d)"

text \<open>A state with records put before its records and messages before its messages.\<close>

definition shift :: "jsval list \<Rightarrow> log list \<Rightarrow> pstate \<Rightarrow> pstate" where
  "shift objs printed st = st\<lparr>objects := objs @ objects st, console := printed @ console st\<rparr>"

text \<open>A text without line terminators.\<close>

definition one_line :: "string \<Rightarrow> bool" where
  "one_line s = list_all (\<lambda>c. c \<noteq> LF \<and> c \<noteq> CR) s"

text \<open>
  A dictionary with a location processor, a report that ends with a line terminator
  and whose location has no contact lines, and a second report.
\<close>

definition location_opts :: fieldDef where
  "location_opts =
     \<lparr>fd_type = ''primary_secondary_location'', field = None, field_name = None,
      table_name = None, num_columns = None, location_field = Some ''loc'',
      contacts_field = Some ''contacts''\<rparr>"

definition location_dict :: dictionary where
  "location_dict =
     \<lparr>types = [(''Order'', \<lparr>type_fields = Some [],
                              fields_by_header = Some [(''Loc:'', location_opts)],
                              belongs_to = None\<rparr>)],
      options = None\<rparr>"

definition report_a :: string where
  "report_a = ''Loc:'' @ [LF] @ ''Secondary Location'' @ [LF] @ ''abc'' @ [LF]"

definition report_b :: string where
  "report_b = ''Loc:'' @ [LF] @ ''Secondary Location'' @ [LF] @ ''Contact Name Ann''"

text \<open>
  A builder in which every text held is non-empty and stands under a key other than
  \<^verbatim>\<open>_meta\<close>.
\<close>

definition texts_held :: "raw \<Rightarrow> bool" where
  "texts_held object =
     list_all (\<lambda>(k, c). case c of Text s \<Rightarrow> s \<noteq> [] \<and> k \<noteq> ''_meta'' | Warnings w \<Rightarrow> True)
       object"

text \<open>The matches of one line: each not empty, inside the line, and after the one before.\<close>

fun in_order :: "string list \<Rightarrow> nat \<Rightarrow> nat \<Rightarrow> (nat \<times> string) list \<Rightarrow> bool" where
  "in_order alts n c [] = True"
| "in_order alts n c ((q, h) # ms) =
     (c \<le> q \<and> h \<noteq> [] \<and> h \<in> set alts \<and> q + length h \<le> n \<and>
      in_order alts n (q + length h) ms)"

text \<open>
  A scanner state whose builder is such a builder and whose open field, if any, is
  not \<^verbatim>\<open>_meta\<close>.
\<close>

definition scanning :: "pstate \<Rightarrow> bool" where
  "scanning st =
     (texts_held (currObject st) \<and>
      (case multilineField st of None \<Rightarrow> True | Some (header, val) \<Rightarrow> header \<noteq> ''_meta''))"

text \<open>
  A capture that, once cooked, is not filed under any of the records \<open>before\<close>: its
  type declares no owner, or none of those records agrees with it on the match field.
\<close>

definition unrelated :: "dictionary \<Rightarrow> jsval list \<Rightarrow> raw \<Rightarrow> bool" where
  "unrelated d before rawFields =
     (case identifyObjectType rawFields d of
        Inl e \<Rightarrow> True
      | Inr None \<Rightarrow> True
      | Inr (Some objectType) \<Rightarrow>
          (case ownerOf d objectType of
             None \<Rightarrow> True
           | Some own \<Rightarrow>
               (case process_all d objectType rawFields [] of
                  Inl e \<Rightarrow> True
                | Inr result \<Rightarrow>
                    list_all (\<lambda>ob. \<not> owner_matches (match_on own) result ob) before)))"

text \<open>
  The captures that a parse hands to \<^verbatim>\<open>cookObject\<close>: the builder at each separator line
  and at the end of the input, when it is not empty.
\<close>

definition flushed :: "pstate \<Rightarrow> raw list" where
  "flushed st =
     (case finish_open st of
        Inl e \<Rightarrow> []
      | Inr st1 \<Rightarrow> if isEmpty (currObject st1) then [] else [currObject st1])"

definition cooked_line :: "parser \<Rightarrow> pstate \<Rightarrow> string \<Rightarrow> raw list" where
  "cooked_line P st line =
     (case recordSeparator (dictionary P) of
        Inl e \<Rightarrow> []
      | Inr sep \<Rightarrow> if regexp_test sep line then flushed st else [])"

fun cooked_run :: "parser \<Rightarrow> pstate \<Rightarrow> string list \<Rightarrow> raw list" where
  "cooked_run P st [] = flushed st"
| "cooked_run P st (line # lines) =
     cooked_line P st line
     @ (case on_line P st line of
          None \<Rightarrow> []
        | Some (Inl e) \<Rightarrow> []
        | Some (Inr st1) \<Rightarrow> cooked_run P st1 lines)"

definition cooked :: "parser \<Rightarrow> string \<Rightarrow> raw list" where
  "cooked P text = cooked_run P initial (readline text)"

text \<open>A suborder of an order that is not in the report.\<close>

definition orphan_text :: string where
  "orphan_text = ''foo: 2'' @ [LF] @ ''bar: hello''"

text \<open>
  A line that is treated as a record separator, in the words of the specification:
  the handler closes the record in progress as the end of the input does (with the
  same records, or the same error), and begins a new record with no field open.
\<close>

definition treated_as_separator :: "parser \<Rightarrow> pstate \<Rightarrow> string \<Rightarrow> bool" where
  "treated_as_separator P st line =
     (case on_line P st line of
        None \<Rightarrow> False
      | Some (Inl e) \<Rightarrow> on_close P st = Inl e
      | Some (Inr st1) \<Rightarrow>
          on_close P st = Inr (objects st1) \<and> currObject st1 = [] \<and> multilineField st1 = None)"

text \<open>The scanner after the line \<^verbatim>\<open>Foo: 1\<close>.\<close>

definition open_foo :: pstate where
  "open_foo = initial\<lparr>multilineField := Some (''Foo:'', '' 1'')\<rparr>"

text \<open>
  The parser of \<open>two_type_dict\<close>; the scanner at the end of the report \<^verbatim>\<open>Shared: x\<close>; a
  report whose first record holds a header of each type, and the scanner before its
  separator line.
\<close>

definition two_type_parser :: parser where
  "two_type_parser =
     \<lparr>dictionary = FieldDictionary two_type_dict,
      regex = [''Foo:'', ''Shared:'', ''Bar:'', ''Shared:'']\<rparr>"

definition shared_open :: pstate where
  "shared_open = initial\<lparr>multilineField := Some (''Shared:'', '' x'')\<rparr>"

definition mixed_text :: string where
  "mixed_text = ''Foo: 1'' @ [LF] @ ''Bar: 2'' @ [LF] @ ''__'' @ [LF] @ ''Foo: 3''"

definition mixed_open :: pstate where
  "mixed_open =
     initial\<lparr>currObject := [(''Foo:'', Text ('' 1'' @ [LF]))],
             multilineField := Some (''Bar:'', '' 2'')\<rparr>"





text \<open>
  A capture of the location processor as the specification describes it has a
  contact block: one of its lines begins with \<^verbatim>\<open>Contact \<close>.
\<close>

definition has_contact :: "string \<Rightarrow> bool" where
  "has_contact val = list_ex (starts_with ''Contact '') (splitLines val)"

text \<open>A header for which some type of the dictionary configures the location processor.\<close>

definition location_header :: "dictionary \<Rightarrow> string \<Rightarrow> bool" where
  "location_header d header =
     list_ex (\<lambda>(typeName, td).
         list_ex (\<lambda>(h, fd). h = header \<and> fd_type fd = ''primary_secondary_location'')
           (or_empty (fields_by_header td)))
       (types d)"

text \<open>A capture in which every text under such a header has a contact block.\<close>

definition well_formed :: "dictionary \<Rightarrow> raw \<Rightarrow> bool" where
  "well_formed d rawFields =
     list_all (\<lambda>(header, c). case c of
                  Text val \<Rightarrow> if location_header d header then has_contact val else True
                | Warnings w \<Rightarrow> True)
       rawFields"

text \<open>A scanner state whose open field, if any, holds no carriage return.\<close>

definition cr_free :: "pstate \<Rightarrow> bool" where
  "cr_free st = (case multilineField st of None \<Rightarrow> True | Some (header, val) \<Rightarrow> CR \<notin> set val)"

text \<open>
  A report with a location and a contact block that ends with a line terminator; the
  parsers of \<open>location_dict\<close> and of \<open>owner_dict\<close>.
\<close>

definition report_c :: string where
  "report_c =
     ''Loc:'' @ [LF] @ ''Secondary Location'' @ [LF] @ ''abc'' @ [LF] @ ''Contact Name Ann''
       @ [LF] @ ''Telephone 1'' @ [LF]"

definition location_parser :: parser where
  "location_parser = \<lparr>dictionary = FieldDictionary location_dict, regex = [''Loc:'']\<rparr>"

definition owner_parser :: parser where
  "owner_parser =
     \<lparr>dictionary = FieldDictionary owner_dict, regex = [''Foo:'', ''foo:'', ''bar:'']\<rparr>"

section \<open>Properties\<close>

subsection \<open>Objects\<close>

lemma obj_replace_get: "k \<in> set (map fst ob) \<Longrightarrow> map_of (obj_replace ob k v) k = Some v"
  by (induction ob) force+

lemma obj_create_get: "k \<notin> set (map fst ob) \<Longrightarrow> map_of (obj_create ob k v) k = Some v"
  by (induction ob) auto

lemma obj_replace_other: "k' \<noteq> k \<Longrightarrow> map_of (obj_replace ob k v) k' = map_of ob k'"
  by (induction ob) auto

lemma obj_create_other: "k' \<noteq> k \<Longrightarrow> map_of (obj_create ob k v) k' = map_of ob k'"
  by (induction ob) auto

lemma set_obj_replace: "set (obj_replace ob k v) \<subseteq> insert (k, v) (set ob)"
  by (induction ob) (auto split: if_splits)

lemma set_obj_create: "set (obj_create ob k v) = insert (k, v) (set ob)"
  by (induction ob) (auto split: if_splits)



lemma keys_obj_replace: "map fst (obj_replace ob k v) = map fst ob"
  by (induction ob) auto

lemma keys_obj_create: "map fst (obj_create ob k v) = map fst (obj_create ob k w)"
  by (induction ob) auto

lemma keys_obj_set: "map fst (obj_set ob k v) = map fst (obj_set ob k w)"
  by (simp add: obj_set_def keys_obj_replace keys_obj_create [of ob k v w])



lemma obj_get_set_same: "obj_get (obj_set ob k v) k = Some v"
  by (simp add: obj_get_def obj_set_def obj_replace_get obj_create_get)

lemma obj_get_set_other: "k' \<noteq> k \<Longrightarrow> obj_get (obj_set ob k v) k' = obj_get ob k'"
  by (simp add: obj_get_def obj_set_def obj_replace_other obj_create_other)


subsection \<open>Lists and slices\<close>

lemma splitLines_not_Nil: "splitLines s \<noteq> []"
  by (induction s rule: splitLines.induct) (auto split: list.splits)

lemma slice_index_nat: "slice_index n (int a) = min a n"
  by (simp add: slice_index_def)

lemma slice_nat:
  "slice xs (int a) (int b) =
     take (min b (length xs) - min a (length xs)) (drop (min a (length xs)) xs)"
  by (simp add: slice_def slice_index_nat Let_def)


lemma slice_inside:
  "b \<le> length xs \<Longrightarrow> a \<le> b \<Longrightarrow> slice xs (int a) (int b) = take (b - a) (drop a xs)"
  by (simp add: slice_nat min_def)

subsection \<open>The table processor\<close>




lemma table_lines_blank_first: "table_lines blank_first = [''A'', ''B'', ''1'', ''2'']"
  by code_simp

text \<open>
  Every capture whose line count the column count does not divide ends in the
  reference error, whatever the header and the count.
\<close>

lemma uneven_table_throws:
  assumes "field_name opts = Some f" "f \<noteq> []" "table_name opts = Some t" "t \<noteq> []"
    and "num_columns opts = Some C" "0 < C"
    and "length (table_lines val) mod C \<noteq> 0"
  shows "\<exists>proc. field_followed_by_table opts = Inr proc \<and>
           proc ob header val = Inl (ReferenceError ''trimmedLines is not defined'')"
proof -
  obtain line0 rest where "splitLines val = line0 # rest"
    using splitLines_not_Nil [of val] by (cases "splitLines val") auto
  with assms show ?thesis
    by (simp add: field_followed_by_table_def requiredOption_str_def requiredOption_num_def
        field_followed_by_table_apply_def Let_def)
qed

text \<open>
  Claim C2, at a failing input. The report \<open>uneven_text\<close> has three table lines for two
  columns. The parse does fail, but with the reference error of the unbound
  \<^verbatim>\<open>trimmedLines\<close> in the \<^verbatim>\<open>console.log\<close> before the \<^verbatim>\<open>throw\<close>; the message with the header
  and the line count, \<open>TableLines ''Due:'' 3 2\<close>, is never thrown.
\<close>

theorem uneven_table_reference_error:
  "parse_with table_dict uneven_text = Some (Inl (ReferenceError ''trimmedLines is not defined''))
   \<and> parse_with table_dict uneven_text \<noteq> Some (Inl (TableLines ''Due:'' 3 2))"
  by code_simp












text \<open>
  The record of \<open>blank_first\<close>, and the order of the properties of a row: array
  indices first and ascending, a name without a value holds \<^verbatim>\<open>undefined\<close>.
\<close>

lemma table_of_blank_first:
  "field_followed_by_table_apply ''due'' ''items'' 2 [] ''Due:'' blank_first
     = Inr [(''due'', JStr []),
            (''items'', JArr [JObj [(''A'', JStr ''1''), (''B'', JStr ''2'')]])]
   \<and> zipObject [''2'', ''1''] [''a'', ''b''] = [(''1'', JStr ''b''), (''2'', JStr ''a'')]
   \<and> zipObject [''b'', ''10'', ''9'', ''01''] [''w'', ''x'', ''y'', ''z'']
       = [(''9'', JStr ''y''), (''10'', JStr ''x''), (''b'', JStr ''w''), (''01'', JStr ''z'')]
   \<and> zipObject [''a'', ''b''] [''x''] = [(''a'', JStr ''x''), (''b'', JUndefined)]"
  by code_simp

subsection \<open>The header matcher\<close>

lemma search_Some:
  "search alts s p = Some (q, h) \<Longrightarrow> h \<in> set alts \<and> p \<le> q \<and> (q - p) + length h \<le> length s"
proof (induction alts s p rule: search.induct)
  case (1 alts s p)
  show ?case
  proof (cases "find (\<lambda>h. prefix h s) alts")
    case (Some h')
    with "1.prems" have eq: "q = p" "h = h'" by simp_all
    from Some have "h' \<in> set alts" "prefix h' s"
      by (auto simp: find_Some_iff)
    with eq show ?thesis by (auto simp: prefix_length_le)
  next
    case None
    show ?thesis
    proof (cases s)
      case Nil
      with None "1.prems" show ?thesis by simp
    next
      case (Cons c cs)
      with None "1.prems" have "search alts cs (Suc p) = Some (q, h)" by simp
      from "1.IH" [OF None Cons this] Cons show ?thesis by auto
    qed
  qed
qed

lemma regex_exec_Some:
  assumes "regex_exec alts s i = Some (q, h)"
  shows "h \<in> set alts \<and> i \<le> q \<and> q + length h \<le> length s"
proof -
  from assms have i: "i \<le> length s" and s: "search alts (drop i s) i = Some (q, h)"
    by (auto simp: regex_exec_def split: if_splits)
  from search_Some [OF s] i show ?thesis by auto
qed

lemma search_empty_alt: "[] \<in> set alts \<Longrightarrow> search alts s p \<noteq> None"
  by (cases "find (\<lambda>h. prefix h s) alts") (auto simp: find_None_iff)

lemma regex_exec_empty_alt: "[] \<in> set alts \<Longrightarrow> i \<le> length s \<Longrightarrow> regex_exec alts s i \<noteq> None"
  using search_empty_alt [of alts "drop i s" i] by (simp add: regex_exec_def del: search.simps)

lemma allMatches_from_returns:
  assumes "\<forall>h \<in> set alts. h \<noteq> []"
  shows "\<exists>ms. allMatches_from alts s i acc = Some ms"
proof (induction "Suc (length s) - i" arbitrary: i acc rule: less_induct)
  case less
  show ?case
  proof (cases "regex_exec alts s i")
    case None
    then show ?thesis by (subst allMatches_from.simps) simp
  next
    case (Some m)
    obtain q h where m: "m = (q, h)" by (cases m)
    from regex_exec_Some [OF Some [unfolded m]] assms
    have "h \<noteq> []" "i \<le> q" "q + length h \<le> length s" by auto
    then have "Suc (length s) - (q + length h) < Suc (length s) - i"
      by (cases h) auto
    from less [OF this] obtain ms where
      "allMatches_from alts s (q + length h) (acc @ [m]) = Some ms" by blast
    with Some m show ?thesis by (subst allMatches_from.simps) simp
  qed
qed

lemma allMatches_from_diverges_aux:
  assumes "allMatches_from alts0 s0 i0 acc0 = Some ms0"
  shows "\<not> ([] \<in> set alts0 \<and> i0 \<le> length s0)"
proof (rule allMatches_from.raw_induct
    [where P = "\<lambda>alts s i acc ms. \<not> ([] \<in> set alts \<and> i \<le> length s)", OF _ assms], goal_cases)
  case (1 f alts s i acc ms)
  show ?case
  proof
    assume bad: "[] \<in> set alts \<and> i \<le> length s"
    then obtain m where m: "regex_exec alts s i = Some m"
      using regex_exec_empty_alt [of alts i s] by auto
    obtain q h where qh: "m = (q, h)" by (cases m)
    from regex_exec_Some [OF m [unfolded qh]] have "q + length h \<le> length s" by simp
    moreover from 1(2) m qh have "f alts s (q + length h) (acc @ [m]) = Some ms" by simp
    ultimately show False using 1(1) bad by blast
  qed
qed

lemma allMatches_from_diverges:
  "[] \<in> set alts \<Longrightarrow> i \<le> length s \<Longrightarrow> allMatches_from alts s i acc = None"
  using allMatches_from_diverges_aux [of alts s i acc] by (cases "allMatches_from alts s i acc") auto


lemma type_headers_default [simp]: "type_headers (default_fields_by_header td) = type_headers td"
  by (simp add: type_headers_def default_fields_by_header_def or_empty_def split: option.splits)

lemma allHeaders_FieldDictionary [simp]: "allHeaders (FieldDictionary d) = allHeaders d"
  by (simp add: allHeaders_def FieldDictionary_def comp_def case_prod_unfold)

lemma splitByMatches_Some_iff:
  "(\<exists>parts. splitByMatches alts s = Some parts) \<longleftrightarrow> (\<exists>ms. allMatches alts s = Some ms)"
  by (auto simp: splitByMatches_def split: option.splits prod.splits)

lemma on_line_returns:
  assumes "allMatches (regex P) line = Some ms"
  shows "\<exists>r. on_line P st line = Some r"
proof -
  from assms obtain parts where "splitByMatches (regex P) line = Some parts"
    using splitByMatches_Some_iff by blast
  then show ?thesis
    by (simp add: on_line_def Let_def split: sum.splits)
qed

text \<open>
  Claim C10. A dictionary that declares at least one header, none of them empty,
  makes \<^verbatim>\<open>allMatches\<close>, \<^verbatim>\<open>splitByMatches\<close> and the handler of a line return on
  every line. A dictionary that declares no header (the join of no terms is the empty
  pattern) or the empty header makes the pattern match the empty string without
  advancing, and \<^verbatim>\<open>allMatches\<close> returns on no line.
\<close>

theorem header_matcher_termination:
  assumes "OrderParser d = Inr P"
  shows "(allHeaders d \<noteq> [] \<and> [] \<notin> set (allHeaders d) \<longrightarrow>
            (\<exists>ms. allMatches (regex P) line = Some ms) \<and>
            (\<exists>parts. splitByMatches (regex P) line = Some parts) \<and>
            (\<exists>r. on_line P st line = Some r))
       \<and> (allHeaders d = [] \<or> [] \<in> set (allHeaders d) \<longrightarrow>
            allMatches (regex P) line = None \<and> splitByMatches (regex P) line = None)"
proof -
  from assms have rx: "regex P = (if allHeaders d = [] then [[]] else allHeaders d)"
    by (auto simp: OrderParser_def buildDictionaryRegex_def Let_def)
  have good: "(\<exists>ms. allMatches (regex P) line = Some ms) \<and>
            (\<exists>parts. splitByMatches (regex P) line = Some parts) \<and>
            (\<exists>r. on_line P st line = Some r)"
    if "allHeaders d \<noteq> []" "[] \<notin> set (allHeaders d)"
  proof -
    from that rx have "\<forall>h \<in> set (regex P). h \<noteq> []" by auto
    from allMatches_from_returns [OF this, of line 0 "[]"]
    obtain ms where ms: "allMatches (regex P) line = Some ms" by (auto simp: allMatches_def)
    with on_line_returns [OF ms] splitByMatches_Some_iff show ?thesis by blast
  qed
  have bad: "allMatches (regex P) line = None \<and> splitByMatches (regex P) line = None"
    if "allHeaders d = [] \<or> [] \<in> set (allHeaders d)"
  proof -
    from that rx have "[] \<in> set (regex P)" by auto
    then have "allMatches (regex P) line = None"
      by (simp add: allMatches_def allMatches_from_diverges)
    then show ?thesis by (simp add: splitByMatches_def)
  qed
  from good bad show ?thesis by blast
qed

text \<open>Claim C10 at the dictionary of the tests and at a dictionary without headers.\<close>

theorem header_matcher_termination_witness:
  "(\<exists>ms. allMatches [''Foo:''] ''Foo: 1'' = Some ms) \<and> allMatches [[]] ''Foo: 1'' = None"
proof -
  have ha: "allHeaders foo_dict = [''Foo:'']"
    by (simp add: allHeaders_def type_headers_def or_empty_def foo_dict_def)
  have hb: "allHeaders no_header_dict = []"
    by (simp add: allHeaders_def type_headers_def or_empty_def no_header_dict_def)
  have a: "OrderParser foo_dict = Inr \<lparr>dictionary = FieldDictionary foo_dict, regex = [''Foo:'']\<rparr>"
    by (simp add: OrderParser_def buildDictionaryRegex_def ha)
  have b: "OrderParser no_header_dict = Inr \<lparr>dictionary = FieldDictionary no_header_dict, regex = [[]]\<rparr>"
    by (simp add: OrderParser_def buildDictionaryRegex_def hb)
  from header_matcher_termination [OF a, of "''Foo: 1''" initial]
       header_matcher_termination [OF b, of "''Foo: 1''" initial] ha hb
  show ?thesis by simp
qed

subsection \<open>Classification\<close>

lemma votes_Cons:
  "votes d (k # keys) = (case typesForHeader d k of [typeName] \<Rightarrow> [typeName] | _ \<Rightarrow> []) @ votes d keys"
  by (simp add: votes_def)

lemma identify_no_votes: "votes d keys = [] \<Longrightarrow> identify_from d keys acc = Inr acc"
  by (induction keys arbitrary: acc) (auto simp: votes_Cons split: list.splits)

lemma identify_other_vote:
  "t' \<in> set (votes d keys) \<Longrightarrow> t' \<noteq> t \<Longrightarrow>
     \<exists>b h. t \<noteq> b \<and> h \<in> set keys \<and> identify_from d keys (Some t) = Inl (TwoTypes t b h)"
proof (induction keys)
  case Nil
  then show ?case by (simp add: votes_def)
next
  case (Cons k keys)
  show ?case
  proof (cases "\<exists>v. typesForHeader d k = [v]")
    case True
    then obtain v where v: "typesForHeader d k = [v]" by blast
    show ?thesis
    proof (cases "v = t")
      case True
      with v Cons.prems have "t' \<in> set (votes d keys)" by (auto simp: votes_Cons)
      from Cons.IH [OF this Cons.prems(2)] v True show ?thesis by auto
    next
      case False
      with v show ?thesis by auto
    qed
  next
    case False
    then have nv: "(case typesForHeader d k of [typeName] \<Rightarrow> [typeName] | _ \<Rightarrow> []) = []"
      by (auto split: list.splits)
    with Cons.prems have "t' \<in> set (votes d keys)" by (simp add: votes_Cons)
    from Cons.IH [OF this Cons.prems(2)] obtain b h where
      bh: "t \<noteq> b" "h \<in> set keys" "identify_from d keys (Some t) = Inl (TwoTypes t b h)" by blast
    from False have "identify_from d (k # keys) (Some t) = identify_from d keys (Some t)"
      by (auto split: list.splits)
    with bh show ?thesis by auto
  qed
qed

lemma identify_two_votes:
  "t1 \<in> set (votes d keys) \<Longrightarrow> t2 \<in> set (votes d keys) \<Longrightarrow> t1 \<noteq> t2 \<Longrightarrow>
     \<exists>a b h. a \<noteq> b \<and> h \<in> set keys \<and> identify_from d keys None = Inl (TwoTypes a b h)"
proof (induction keys)
  case Nil
  then show ?case by (simp add: votes_def)
next
  case (Cons k keys)
  show ?case
  proof (cases "\<exists>v. typesForHeader d k = [v]")
    case True
    then obtain v where v: "typesForHeader d k = [v]" by blast
    from Cons.prems v obtain t' where "t' \<in> set (votes d keys)" "t' \<noteq> v"
      by (cases "t1 = v") (auto simp: votes_Cons)
    from identify_other_vote [OF this] v show ?thesis by auto
  next
    case False
    then have nv: "(case typesForHeader d k of [typeName] \<Rightarrow> [typeName] | _ \<Rightarrow> []) = []"
      by (auto split: list.splits)
    with Cons.prems have "t1 \<in> set (votes d keys)" "t2 \<in> set (votes d keys)"
      by (simp_all add: votes_Cons)
    from Cons.IH [OF this Cons.prems(3)] obtain a b h where
      abh: "a \<noteq> b" "h \<in> set keys" "identify_from d keys None = Inl (TwoTypes a b h)" by blast
    from False have "identify_from d (k # keys) None = identify_from d keys None"
      by (auto split: list.splits)
    with abh show ?thesis by auto
  qed
qed

lemma identify_agreeing:
  "set (votes d keys) \<subseteq> {t} \<Longrightarrow> identify_from d keys (Some t) = Inr (Some t)"
proof (induction keys)
  case Nil
  then show ?case by simp
next
  case (Cons k keys)
  then show ?case by (auto simp: votes_Cons split: list.splits)
qed

lemma identify_one_type:
  "votes d keys \<noteq> [] \<Longrightarrow> set (votes d keys) \<subseteq> {t} \<Longrightarrow> identify_from d keys None = Inr (Some t)"
proof (induction keys)
  case Nil
  then show ?case by (simp add: votes_def)
next
  case (Cons k keys)
  show ?case
  proof (cases "\<exists>v. typesForHeader d k = [v]")
    case True
    then obtain v where v: "typesForHeader d k = [v]" by blast
    with Cons.prems have "v = t" "set (votes d keys) \<subseteq> {t}" by (auto simp: votes_Cons)
    with identify_agreeing [of d keys t] v show ?thesis by simp
  next
    case False
    then have nv: "(case typesForHeader d k of [typeName] \<Rightarrow> [typeName] | _ \<Rightarrow> []) = []"
      by (auto split: list.splits)
    with Cons.prems have "votes d keys \<noteq> []" "set (votes d keys) \<subseteq> {t}"
      by (simp_all add: votes_Cons)
    from Cons.IH [OF this] False show ?thesis by (auto split: list.splits)
  qed
qed

text \<open>
  A builder that cannot be classified ends the parse: the end of the input, and a
  separator line, throw what \<^verbatim>\<open>cookObject\<close> throws.
\<close>

lemma run_lines_append:
  "run_lines P st (xs @ ys) =
     (case run_lines P st xs of
        None \<Rightarrow> None
      | Some (Inl e) \<Rightarrow> Some (Inl e)
      | Some (Inr st1) \<Rightarrow> run_lines P st1 ys)"
  by (induction xs arbitrary: st) (auto split: option.splits sum.splits)

lemma flush_fails:
  assumes fl: "flushed st = [rawFields]"
    and cook: "\<And>objs. cookObject rawFields objs (dictionary P) = Inl e"
  shows "on_close P st = Inl e"
    and "recordSeparator (dictionary P) = Inr sep \<Longrightarrow> regexp_test sep line \<Longrightarrow>
           on_line P st line = Some (Inl e)"
proof -
  from fl obtain st1 where st1: "finish_open st = Inr st1" "\<not> isEmpty (currObject st1)"
    "currObject st1 = rawFields"
    by (auto simp: flushed_def split: sum.splits if_splits)
  with cook [of "objects st1"] have c: "cook_current P st1 = Inl e"
    by (simp add: cook_current_def)
  from st1 c show "on_close P st = Inl e" by (simp add: on_close_def)
  from st1 c show "on_line P st line = Some (Inl e)"
    if "recordSeparator (dictionary P) = Inr sep" "regexp_test sep line"
    using that by (simp add: on_line_def)
qed

lemma parse_fails:
  assumes fl: "flushed st = [rawFields]"
    and cook: "\<And>objs. cookObject rawFields objs (dictionary P) = Inl e"
  shows "run_lines P initial (readline report) = Some (Inr st) \<Longrightarrow> parse P report = Some (Inl e)"
    and "readline report = lines @ line # rest \<Longrightarrow> run_lines P initial lines = Some (Inr st) \<Longrightarrow>
         recordSeparator (dictionary P) = Inr sep \<Longrightarrow> regexp_test sep line \<Longrightarrow>
           parse P report = Some (Inl e)"
proof -
  show "parse P report = Some (Inl e)" if "run_lines P initial (readline report) = Some (Inr st)"
    using that flush_fails(1) [OF fl cook] by (simp add: parse_def parse_lines_def)
  show "parse P report = Some (Inl e)"
    if "readline report = lines @ line # rest" "run_lines P initial lines = Some (Inr st)"
      "recordSeparator (dictionary P) = Inr sep" "regexp_test sep line"
    using that flush_fails(2) [OF fl cook that(3,4)]
    by (simp add: parse_def parse_lines_def run_lines_append)
qed

text \<open>
  Claim C6. For every raw capture handed to \<^verbatim>\<open>cookObject\<close>: a header votes exactly when
  one type declares it (\<open>votes\<close>). Without any vote the capture is not categorized
  and \<^verbatim>\<open>cookObject\<close> throws that; with two votes for different types
  \<^verbatim>\<open>identifyObjectType\<close> throws its message about two types, naming two different
  types and a header of the capture; with votes for one type only, that is the type.
  In both cases of failure the parse fails with that error: when the capture is the
  builder that the end of the report flushes, and when it is the builder that a
  separator line of the report flushes (\<open>flushed\<close>, with \<open>st\<close> the scanner after
  the lines before).
\<close>

theorem classification_by_votes:
  "(votes (dictionary P) (map fst rawFields) = [] \<longrightarrow>
      identifyObjectType rawFields (dictionary P) = Inr None \<and>
      cookObject rawFields currObjects (dictionary P) = Inl (NotCategorized rawFields) \<and>
      (flushed st = [rawFields] \<and> run_lines P initial (readline report) = Some (Inr st) \<longrightarrow>
         parse P report = Some (Inl (NotCategorized rawFields))) \<and>
      (flushed st = [rawFields] \<and> readline report = lines @ line # rest \<and>
       run_lines P initial lines = Some (Inr st) \<and>
       recordSeparator (dictionary P) = Inr sep \<and> regexp_test sep line \<longrightarrow>
         parse P report = Some (Inl (NotCategorized rawFields))))
   \<and> (t1 \<in> set (votes (dictionary P) (map fst rawFields)) \<and>
       t2 \<in> set (votes (dictionary P) (map fst rawFields)) \<and> t1 \<noteq> t2 \<longrightarrow>
      (\<exists>a b h. a \<noteq> b \<and> h \<in> set (map fst rawFields) \<and>
         identifyObjectType rawFields (dictionary P) = Inl (TwoTypes a b h) \<and>
         cookObject rawFields currObjects (dictionary P) = Inl (TwoTypes a b h) \<and>
         (flushed st = [rawFields] \<and> run_lines P initial (readline report) = Some (Inr st) \<longrightarrow>
            parse P report = Some (Inl (TwoTypes a b h))) \<and>
         (flushed st = [rawFields] \<and> readline report = lines @ line # rest \<and>
          run_lines P initial lines = Some (Inr st) \<and>
          recordSeparator (dictionary P) = Inr sep \<and> regexp_test sep line \<longrightarrow>
            parse P report = Some (Inl (TwoTypes a b h)))))
   \<and> (votes (dictionary P) (map fst rawFields) \<noteq> [] \<and>
       set (votes (dictionary P) (map fst rawFields)) \<subseteq> {t} \<longrightarrow>
      identifyObjectType rawFields (dictionary P) = Inr (Some t))"
proof -
  let ?d = "dictionary P"
  let ?keys = "map fst rawFields"
  have none: "identifyObjectType rawFields ?d = Inr None \<and>
      cookObject rawFields objs ?d = Inl (NotCategorized rawFields)"
    if "votes ?d ?keys = []" for objs
    using identify_no_votes [OF that, of None]
    by (simp add: identifyObjectType_def cookObject_def)
  have two: "\<exists>a b h. a \<noteq> b \<and> h \<in> set ?keys \<and>
         identifyObjectType rawFields ?d = Inl (TwoTypes a b h) \<and>
         (\<forall>objs. cookObject rawFields objs ?d = Inl (TwoTypes a b h))"
    if "t1 \<in> set (votes ?d ?keys)" "t2 \<in> set (votes ?d ?keys)" "t1 \<noteq> t2"
  proof -
    from identify_two_votes [OF that] obtain a b h where
      "a \<noteq> b" "h \<in> set ?keys" "identify_from ?d ?keys None = Inl (TwoTypes a b h)" by blast
    then show ?thesis by (auto simp: identifyObjectType_def cookObject_def)
  qed
  have one: "identifyObjectType rawFields ?d = Inr (Some t)"
    if "votes ?d ?keys \<noteq> []" "set (votes ?d ?keys) \<subseteq> {t}"
    using identify_one_type [OF that] by (simp add: identifyObjectType_def)
  have A: "identifyObjectType rawFields ?d = Inr None \<and>
      cookObject rawFields currObjects ?d = Inl (NotCategorized rawFields) \<and>
      (flushed st = [rawFields] \<and> run_lines P initial (readline report) = Some (Inr st) \<longrightarrow>
         parse P report = Some (Inl (NotCategorized rawFields))) \<and>
      (flushed st = [rawFields] \<and> readline report = lines @ line # rest \<and>
       run_lines P initial lines = Some (Inr st) \<and>
       recordSeparator ?d = Inr sep \<and> regexp_test sep line \<longrightarrow>
         parse P report = Some (Inl (NotCategorized rawFields)))"
    if v: "votes ?d ?keys = []"
  proof -
    have c: "cookObject rawFields objs ?d = Inl (NotCategorized rawFields)" for objs
      using none [OF v] by simp
    from none [OF v, of currObjects] parse_fails [of st rawFields P, OF _ c]
    show ?thesis by blast
  qed
  have B: "\<exists>a b h. a \<noteq> b \<and> h \<in> set ?keys \<and>
         identifyObjectType rawFields ?d = Inl (TwoTypes a b h) \<and>
         cookObject rawFields currObjects ?d = Inl (TwoTypes a b h) \<and>
         (flushed st = [rawFields] \<and> run_lines P initial (readline report) = Some (Inr st) \<longrightarrow>
            parse P report = Some (Inl (TwoTypes a b h))) \<and>
         (flushed st = [rawFields] \<and> readline report = lines @ line # rest \<and>
          run_lines P initial lines = Some (Inr st) \<and>
          recordSeparator ?d = Inr sep \<and> regexp_test sep line \<longrightarrow>
            parse P report = Some (Inl (TwoTypes a b h)))"
    if "t1 \<in> set (votes ?d ?keys) \<and> t2 \<in> set (votes ?d ?keys) \<and> t1 \<noteq> t2"
  proof -
    from that two obtain a b h where ab: "a \<noteq> b" "h \<in> set ?keys"
      "identifyObjectType rawFields ?d = Inl (TwoTypes a b h)"
      and c: "\<And>objs. cookObject rawFields objs ?d = Inl (TwoTypes a b h)" by blast
    from ab c [of currObjects] parse_fails [of st rawFields P, OF _ c]
    show ?thesis by blast
  qed
  from A B one show ?thesis by blast
qed

lemma tfh_conj: "typesForHeader (FieldDictionary two_type_dict) ''Foo:'' = [''Order''] \<and>
  typesForHeader (FieldDictionary two_type_dict) ''Bar:'' = [''Suborder''] \<and>
  typesForHeader (FieldDictionary two_type_dict) ''Shared:'' = [''Order'', ''Suborder'']"
  by code_simp

lemmas tfh = tfh_conj [THEN conjunct1] tfh_conj [THEN conjunct2, THEN conjunct1]
  tfh_conj [THEN conjunct2, THEN conjunct2]

lemma two_type_facts:
  "OrderParser two_type_dict = Inr two_type_parser
   \<and> dictionary two_type_parser = FieldDictionary two_type_dict
   \<and> run_lines two_type_parser initial (readline ''Shared: x'') = Some (Inr shared_open)
   \<and> flushed shared_open = [[(''Shared:'', Text '' x'')]]
   \<and> readline mixed_text = [''Foo: 1'', ''Bar: 2''] @ ''__'' # [''Foo: 3'']
   \<and> run_lines two_type_parser initial [''Foo: 1'', ''Bar: 2''] = Some (Inr mixed_open)
   \<and> flushed mixed_open = [[(''Foo:'', Text ('' 1'' @ [LF])), (''Bar:'', Text '' 2'')]]
   \<and> recordSeparator (FieldDictionary two_type_dict) = Inr DEFAULT_RECORD_SEPARATOR
   \<and> regexp_test DEFAULT_RECORD_SEPARATOR ''__''"
  by code_simp

text \<open>
  Claim C6 on two reports under \<open>two_type_dict\<close>: one holding only a header that both
  types declare, one whose first record holds a header of each type.
\<close>

theorem classification_by_votes_witness:
  "votes (FieldDictionary two_type_dict) [''Shared:''] = [] \<and>
   cookObject [(''Shared:'', Text '' x'')] [] (FieldDictionary two_type_dict)
     = Inl (NotCategorized [(''Shared:'', Text '' x'')]) \<and>
   parse two_type_parser ''Shared: x'' = Some (Inl (NotCategorized [(''Shared:'', Text '' x'')])) \<and>
   votes (FieldDictionary two_type_dict) [''Foo:'', ''Bar:''] = [''Order'', ''Suborder''] \<and>
   (\<exists>a b h. cookObject [(''Foo:'', Text ('' 1'' @ [LF])), (''Bar:'', Text '' 2'')] []
        (FieldDictionary two_type_dict) = Inl (TwoTypes a b h) \<and>
      parse two_type_parser mixed_text = Some (Inl (TwoTypes a b h)))"
proof -
  note f = two_type_facts
  have v1: "votes (FieldDictionary two_type_dict) (map fst [(''Shared:'', Text '' x'')]) = []"
    by (simp add: votes_def tfh)
  have v2: "votes (FieldDictionary two_type_dict)
      (map fst [(''Foo:'', Text ('' 1'' @ [LF])), (''Bar:'', Text '' 2'')])
    = [''Order'', ''Suborder'']"
    by (simp add: votes_def tfh)
  from classification_by_votes [where P = two_type_parser
      and rawFields = "[(''Shared:'', Text '' x'')]" and currObjects = "[]" and st = shared_open
      and report = "''Shared: x''"] v1 f
  have a: "cookObject [(''Shared:'', Text '' x'')] [] (FieldDictionary two_type_dict)
     = Inl (NotCategorized [(''Shared:'', Text '' x'')]) \<and>
   parse two_type_parser ''Shared: x'' = Some (Inl (NotCategorized [(''Shared:'', Text '' x'')]))"
    by simp
  from classification_by_votes [where P = two_type_parser
      and rawFields = "[(''Foo:'', Text ('' 1'' @ [LF])), (''Bar:'', Text '' 2'')]"
      and currObjects = "[]" and st = mixed_open and report = mixed_text
      and lines = "[''Foo: 1'', ''Bar: 2'']" and line = "''__''" and rest = "[''Foo: 3'']"
      and sep = DEFAULT_RECORD_SEPARATOR and ?t1.0 = "''Order''" and ?t2.0 = "''Suborder''"] v2 f
  have b: "\<exists>a b h. cookObject [(''Foo:'', Text ('' 1'' @ [LF])), (''Bar:'', Text '' 2'')] []
        (FieldDictionary two_type_dict) = Inl (TwoTypes a b h) \<and>
      parse two_type_parser mixed_text = Some (Inl (TwoTypes a b h))"
    by simp blast
  from v1 v2 a b show ?thesis by simp
qed

lemma classification_in_a_parse:
  "parse_with two_type_dict ''Shared: x'' = Some (Inl (NotCategorized [(''Shared:'', Text '' x'')]))
   \<and> parse_with two_type_dict mixed_text = Some (Inl (TwoTypes ''Order'' ''Suborder'' ''Bar:''))"
  by code_simp

subsection \<open>Filing a record under its owner\<close>








subsection \<open>The record separator\<close>

lemma chain_base: "R i j \<Longrightarrow> chain R n i j"
  by (cases n) auto

lemma chain_transfer:
  assumes step: "\<And>a b. R a b \<Longrightarrow> R' (off + a) (off + b)"
  shows "n \<le> m \<Longrightarrow> chain R n i j \<Longrightarrow> chain R' m (off + i) (off + j)"
proof (induction n arbitrary: m i j)
  case 0
  then show ?case by (simp add: chain_base step)
next
  case (Suc n)
  from Suc.prems(1) obtain m' where m: "m = Suc m'" "n \<le> m'" by (cases m) auto
  from Suc.prems(2) consider "R i j" | k where "Suc i \<le> k" "k \<le> j" "R i k" "chain R n k j"
    by (auto simp: list_ex_iff less_Suc_eq_le simp del: upt_Suc)
  then show ?case
  proof cases
    case 1
    then show ?thesis by (simp add: chain_base step)
  next
    case 2
    from Suc.IH [OF m(2) 2(4)] have "chain R' m' (off + k) (off + j)" .
    moreover from 2(3) have "R' (off + i) (off + k)" by (rule step)
    moreover from 2(1,2) have "off + k \<in> set [Suc (off + i)..<Suc (off + j)]"
      by (simp add: less_Suc_eq_le del: upt_Suc)
    ultimately show ?thesis unfolding m(1) by (auto simp: list_ex_iff simp del: upt_Suc)
  qed
qed

lemma re_match_in_context:
  "anchor_free r \<Longrightarrow> re_match r v i j \<Longrightarrow> re_match r (u @ v @ w) (length u + i) (length u + j)"
proof (induction r arbitrary: i j)
  case (Chr c)
  then show ?case by (simp add: nth_append)
next
  case (Cat a b)
  from Cat.prems obtain k where k: "i \<le> k" "k \<le> j" "re_match a v i k" "re_match b v k j"
    by (auto simp: list_ex_iff less_Suc_eq_le simp del: upt_Suc)
  from Cat.IH(1) [OF _ k(3)] Cat.IH(2) [OF _ k(4)] Cat.prems(1)
  have "re_match a (u @ v @ w) (length u + i) (length u + k)"
    "re_match b (u @ v @ w) (length u + k) (length u + j)" by simp_all
  moreover from k(1,2) have "length u + k \<in> set [length u + i..<Suc (length u + j)]"
    by (simp add: less_Suc_eq_le del: upt_Suc)
  ultimately show ?case by (auto simp: list_ex_iff simp del: upt_Suc)
next
  case (Plus a)
  from Plus.prems have c: "chain (re_match a v) (length v) i j" and af: "anchor_free a" by simp_all
  have "chain (re_match a (u @ v @ w)) (length (u @ v @ w)) (length u + i) (length u + j)"
    by (rule chain_transfer [OF _ _ c]) (use af Plus.IH in auto)
  then show ?case by simp
qed auto

lemma regexp_test_iff:
  "regexp_test r s \<longleftrightarrow> (\<exists>i j. i \<le> j \<and> j \<le> length s \<and> re_match r s i j)"
proof -
  have "regexp_test r s \<longleftrightarrow>
      (\<exists>i \<in> {0..<Suc (length s)}. \<exists>j \<in> {i..<Suc (length s)}. re_match r s i j)"
    by (simp only: regexp_test_def list_ex_iff set_upt)
  also have "\<dots> \<longleftrightarrow> (\<exists>i j. i \<le> j \<and> j \<le> length s \<and> re_match r s i j)"
    unfolding Bex_def atLeastLessThan_iff less_Suc_eq_le by (meson le0 le_trans)
  finally show ?thesis .
qed

lemma chain_chr_less: "chain (re_match (Chr c) s) n i j \<Longrightarrow> i < j"
  by (induction n arbitrary: i j) (auto simp: list_ex_iff less_Suc_eq_le simp del: upt_Suc)

lemma chain_chr:
  "chain (re_match (Chr c) s) n i j \<longleftrightarrow>
     i < j \<and> j \<le> length s \<and> j - i \<le> Suc n \<and> (\<forall>k. i \<le> k \<and> k < j \<longrightarrow> s ! k = c)"
proof (induction n arbitrary: i j)
  case 0
  show ?case
  proof
    assume "chain (re_match (Chr c) s) 0 i j"
    then show "i < j \<and> j \<le> length s \<and> j - i \<le> Suc 0 \<and> (\<forall>k. i \<le> k \<and> k < j \<longrightarrow> s ! k = c)"
      by (auto simp: le_less_Suc_eq)
  next
    assume a: "i < j \<and> j \<le> length s \<and> j - i \<le> Suc 0 \<and> (\<forall>k. i \<le> k \<and> k < j \<longrightarrow> s ! k = c)"
    then have "j = Suc i" by arith
    with a show "chain (re_match (Chr c) s) 0 i j" by auto
  qed
next
  case (Suc n)
  have unfold: "chain (re_match (Chr c) s) (Suc n) i j \<longleftrightarrow>
      (i < length s \<and> s ! i = c \<and> (j = Suc i \<or> chain (re_match (Chr c) s) n (Suc i) j))"
  proof
    assume "chain (re_match (Chr c) s) (Suc n) i j"
    then show "i < length s \<and> s ! i = c \<and> (j = Suc i \<or> chain (re_match (Chr c) s) n (Suc i) j)"
      by (auto simp: list_ex_iff simp del: upt_Suc)
  next
    assume a: "i < length s \<and> s ! i = c \<and> (j = Suc i \<or> chain (re_match (Chr c) s) n (Suc i) j)"
    show "chain (re_match (Chr c) s) (Suc n) i j"
    proof (cases "j = Suc i")
      case True
      with a show ?thesis by simp
    next
      case False
      with a have c: "chain (re_match (Chr c) s) n (Suc i) j" by simp
      from chain_chr_less [OF c] have "Suc i \<in> set [Suc i..<Suc j]"
        by (simp add: less_Suc_eq_le del: upt_Suc)
      with a c show ?thesis by (auto simp: list_ex_iff simp del: upt_Suc)
    qed
  qed
  show ?case
  proof
    assume "chain (re_match (Chr c) s) (Suc n) i j"
    with unfold have h: "i < length s" "s ! i = c"
      "j = Suc i \<or> chain (re_match (Chr c) s) n (Suc i) j" by simp_all
    from h(3) show "i < j \<and> j \<le> length s \<and> j - i \<le> Suc (Suc n) \<and> (\<forall>k. i \<le> k \<and> k < j \<longrightarrow> s ! k = c)"
    proof
      assume "j = Suc i"
      with h show ?thesis by (auto simp: le_less_Suc_eq)
    next
      assume "chain (re_match (Chr c) s) n (Suc i) j"
      then have t: "Suc i < j" "j \<le> length s" "j - Suc i \<le> Suc n"
        "\<forall>k. Suc i \<le> k \<and> k < j \<longrightarrow> s ! k = c" by (simp_all add: Suc.IH)
      have "s ! k = c" if "i \<le> k" "k < j" for k
        using that t(4) h(2) by (cases "k = i") auto
      with t show ?thesis by auto
    qed
  next
    assume a: "i < j \<and> j \<le> length s \<and> j - i \<le> Suc (Suc n) \<and> (\<forall>k. i \<le> k \<and> k < j \<longrightarrow> s ! k = c)"
    then have "i < length s" "s ! i = c" by auto
    moreover have "j = Suc i \<or> chain (re_match (Chr c) s) n (Suc i) j"
    proof (cases "j = Suc i")
      case False
      with a have "Suc i < j \<and> j \<le> length s \<and> j - Suc i \<le> Suc n \<and> (\<forall>k. Suc i \<le> k \<and> k < j \<longrightarrow> s ! k = c)"
        by auto
      then show ?thesis by (simp add: Suc.IH)
    qed simp
    ultimately show "chain (re_match (Chr c) s) (Suc n) i j" using unfold by simp
  qed
qed

lemma default_separator_match:
  "re_match DEFAULT_RECORD_SEPARATOR s i j \<longleftrightarrow>
     i = 0 \<and> j = length s \<and> s \<noteq> [] \<and> (\<forall>c \<in> set s. c = CHR ''_'')"
proof -
  have "re_match DEFAULT_RECORD_SEPARATOR s i j \<longleftrightarrow>
      i = 0 \<and> j = length s \<and> chain (re_match (Chr (CHR ''_'')) s) (length s) 0 (length s)"
    by (auto simp: DEFAULT_RECORD_SEPARATOR_def list_ex_iff less_Suc_eq_le simp del: upt_Suc)
  also have "chain (re_match (Chr (CHR ''_'')) s) (length s) 0 (length s) \<longleftrightarrow>
      s \<noteq> [] \<and> (\<forall>c \<in> set s. c = CHR ''_'')"
    by (auto simp: chain_chr all_set_conv_all_nth)
  finally show ?thesis by blast
qed

lemma default_separator_test:
  "regexp_test DEFAULT_RECORD_SEPARATOR s \<longleftrightarrow> s \<noteq> [] \<and> (\<forall>c \<in> set s. c = CHR ''_'')"
  by (auto simp: regexp_test_iff default_separator_match)

lemma finish_open_closed: "finish_open st = Inr st1 \<Longrightarrow> multilineField st1 = None"
  by (cases "multilineField st")
    (auto simp: finish_open_def finishMultilineField_def split: sum.splits)

lemma finish_open_objects: "finish_open st = Inr st1 \<Longrightarrow> objects st1 = objects st"
  by (cases "multilineField st")
    (auto simp: finish_open_def finishMultilineField_def split: sum.splits)

lemma cook_current_fields:
  "cook_current P st = Inr st1 \<Longrightarrow> multilineField st1 = multilineField st"
  by (auto simp: cook_current_def split: if_splits sum.splits)

lemma separator_closes:
  assumes "recordSeparator (dictionary P) = Inr sep" "regexp_test sep line"
  shows "treated_as_separator P st line"
proof (cases "finish_open st")
  case (Inl e)
  with assms show ?thesis by (simp add: treated_as_separator_def on_line_def on_close_def)
next
  case st1: (Inr st1)
  show ?thesis
  proof (cases "cook_current P st1")
    case (Inl e)
    with assms st1 show ?thesis by (simp add: treated_as_separator_def on_line_def on_close_def)
  next
    case (Inr st2)
    from finish_open_closed [OF st1] cook_current_fields [OF Inr]
    have "multilineField st2 = None" by simp
    with assms st1 Inr show ?thesis
      by (simp add: treated_as_separator_def on_line_def on_close_def)
  qed
qed

lemma walk_open:
  "walk st parts = Inr st' \<Longrightarrow>
     objects st' = objects st \<and> (multilineField st \<noteq> None \<longrightarrow> multilineField st' \<noteq> None)"
proof (induction st parts arbitrary: st' rule: walk.induct)
  case (1 st)
  then show ?case by simp
next
  case (2 st part rest)
  show ?case
  proof (cases "isMatch part")
    case False
    show ?thesis
    proof (cases "multilineField st")
      case None
      show ?thesis
      proof (cases "trim (value part) \<noteq> []")
        case True
        with False None "2.prems" obtain object where
          w: "warn (currObject st) ''ignored_text'' (ignored_message (value part)) = Inr object"
          and r: "walk (st\<lparr>currObject := object\<rparr>) rest = Inr st'"
          by (auto split: sum.splits)
        from "2.IH"(1) [OF False None True w r] None show ?thesis by simp
      next
        case blank: False
        with False None "2.prems" have r: "walk st rest = Inr st'" by simp
        from "2.IH"(2) [OF False None blank r] show ?thesis .
      qed
    next
      case (Some hv)
      obtain h v where hv: "hv = (h, v)" by (cases hv)
      with False Some "2.prems"
      have r: "walk (st\<lparr>multilineField := Some (h, v @ value part)\<rparr>) rest = Inr st'" by simp
      from "2.IH"(3) [OF False Some hv [symmetric] r] show ?thesis by simp
    qed
  next
    case True
    with "2.prems" obtain st1 where f: "finish_open st = Inr st1"
      by (auto split: sum.splits)
    note o = finish_open_objects [OF f]
    show ?thesis
    proof (cases rest)
      case Nil
      with True f "2.prems" have "st' = st1\<lparr>multilineField := Some (value part, [])\<rparr>" by simp
      with o show ?thesis by simp
    next
      case (Cons next_part rest1)
      with True f "2.prems"
      have r: "walk (st1\<lparr>multilineField := Some (value part, value next_part)\<rparr>) rest1 = Inr st'"
        by simp
      from "2.IH"(5) [OF _ f Cons r] True o show ?thesis by simp
    qed
  qed
qed

lemma scanned_line:
  assumes "recordSeparator (dictionary P) = Inr sep" "\<not> regexp_test sep line"
    and "on_line P st line = Some (Inr st1)"
  shows "objects st1 = objects st \<and> (multilineField st \<noteq> None \<longrightarrow> multilineField st1 \<noteq> None)"
proof -
  let ?st = "case multilineField st of None \<Rightarrow> st
     | Some (header, val) \<Rightarrow> st\<lparr>multilineField := Some (header, val @ [LF])\<rparr>"
  from assms obtain parts where sp: "splitByMatches (regex P) line = Some parts"
    by (auto simp: on_line_def Let_def split: option.splits)
  with assms obtain st2 where w: "walk ?st parts = Inr st2"
    and st1: "objects st1 = objects st2" "multilineField st1 = multilineField st2"
    by (cases "walk ?st parts") (auto simp: on_line_def Let_def split: if_splits)
  have "objects ?st = objects st" "multilineField st \<noteq> None \<longrightarrow> multilineField ?st \<noteq> None"
    by (auto split: option.splits)
  with walk_open [OF w] st1 show ?thesis by simp
qed

text \<open>
  Claim C9. A custom separator pattern is used as it is written, and the handler of a
  line tests it with \<^verbatim>\<open>exec\<close>, which looks for a match anywhere in the line: the
  pattern matches the line exactly when it matches between some two positions of it,
  and the handler then treats the line as a record separator. So for a pattern
  without anchors, a line that contains a text \<open>v\<close> which the pattern matches as a
  whole is treated as a separator, whatever stands before and after \<open>v\<close>. Without a
  custom pattern the separator is the default: a line that is not empty and consists
  of underscores is treated as a separator, and no other line is, so that a field
  that is open stays open over it and no record is produced.
\<close>

theorem record_separator_anchoring:
  "(options (dictionary P) = Some opts \<and> record_separator opts = Some sep \<and> sep \<noteq> Eps \<longrightarrow>
      recordSeparator (dictionary P) = Inr sep \<and>
      (regexp_test sep line \<longleftrightarrow> (\<exists>i j. i \<le> j \<and> j \<le> length line \<and> re_match sep line i j)) \<and>
      (regexp_test sep line \<longrightarrow> treated_as_separator P st line) \<and>
      (anchor_free sep \<and> re_match sep v 0 (length v) \<longrightarrow>
         regexp_test sep (u @ v @ w) \<and> treated_as_separator P st (u @ v @ w)) \<and>
      (\<not> regexp_test sep line \<and> multilineField st \<noteq> None \<and> on_line P st line = Some (Inr st') \<longrightarrow>
         multilineField st' \<noteq> None \<and> objects st' = objects st))
   \<and> (options (dictionary P) = Some opts \<and> record_separator opts = None \<longrightarrow>
      recordSeparator (dictionary P) = Inr DEFAULT_RECORD_SEPARATOR \<and>
      (regexp_test DEFAULT_RECORD_SEPARATOR line \<longleftrightarrow> line \<noteq> [] \<and> (\<forall>c \<in> set line. c = CHR ''_'')) \<and>
      (line \<noteq> [] \<and> (\<forall>c \<in> set line. c = CHR ''_'') \<longrightarrow> treated_as_separator P st line) \<and>
      ((line = [] \<or> (\<exists>c \<in> set line. c \<noteq> CHR ''_'')) \<and> multilineField st \<noteq> None \<and>
       on_line P st line = Some (Inr st') \<longrightarrow>
         multilineField st' \<noteq> None \<and> objects st' = objects st))"
proof (intro conjI impI)
  assume "options (dictionary P) = Some opts \<and> record_separator opts = Some sep \<and> sep \<noteq> Eps"
  then have custom: "recordSeparator (dictionary P) = Inr sep"
    by (simp add: recordSeparator_def)
  show "recordSeparator (dictionary P) = Inr sep" by (rule custom)
  show "regexp_test sep line \<longleftrightarrow> (\<exists>i j. i \<le> j \<and> j \<le> length line \<and> re_match sep line i j)"
    by (rule regexp_test_iff)
  show "treated_as_separator P st line" if "regexp_test sep line"
    using custom that by (rule separator_closes)
  have ctx: "regexp_test sep (u @ v @ w)" if "anchor_free sep \<and> re_match sep v 0 (length v)"
  proof -
    from that have "anchor_free sep" "re_match sep v 0 (length v)" by simp_all
    from re_match_in_context [OF this, of u w]
    have "re_match sep (u @ v @ w) (length u) (length u + length v)" by simp
    then show ?thesis
      unfolding regexp_test_iff
      by (intro exI [of _ "length u"] exI [of _ "length u + length v"]) simp
  qed
  show "regexp_test sep (u @ v @ w)" if "anchor_free sep \<and> re_match sep v 0 (length v)"
    using that by (rule ctx)
  show "treated_as_separator P st (u @ v @ w)" if "anchor_free sep \<and> re_match sep v 0 (length v)"
    using custom ctx [OF that] by (rule separator_closes)
  show "multilineField st' \<noteq> None" "objects st' = objects st"
    if "\<not> regexp_test sep line \<and> multilineField st \<noteq> None \<and> on_line P st line = Some (Inr st')"
    using scanned_line [OF custom, of line st st'] that by simp_all
next
  assume "options (dictionary P) = Some opts \<and> record_separator opts = None"
  then have default: "recordSeparator (dictionary P) = Inr DEFAULT_RECORD_SEPARATOR"
    by (simp add: recordSeparator_def)
  show "recordSeparator (dictionary P) = Inr DEFAULT_RECORD_SEPARATOR" by (rule default)
  show "regexp_test DEFAULT_RECORD_SEPARATOR line \<longleftrightarrow> line \<noteq> [] \<and> (\<forall>c \<in> set line. c = CHR ''_'')"
    by (rule default_separator_test)
  show "treated_as_separator P st line" if "line \<noteq> [] \<and> (\<forall>c \<in> set line. c = CHR ''_'')"
  proof -
    from that have "regexp_test DEFAULT_RECORD_SEPARATOR line"
      unfolding default_separator_test .
    with default show ?thesis by (rule separator_closes)
  qed
  show "multilineField st' \<noteq> None" "objects st' = objects st"
    if "(line = [] \<or> (\<exists>c \<in> set line. c \<noteq> CHR ''_'')) \<and> multilineField st \<noteq> None \<and>
       on_line P st line = Some (Inr st')"
  proof -
    from that have "\<not> regexp_test DEFAULT_RECORD_SEPARATOR line"
      by (auto simp: default_separator_test)
    with scanned_line [OF default, of line st st'] that
    show "multilineField st' \<noteq> None" "objects st' = objects st" by simp_all
  qed
qed

lemma dashes_facts:
  "options (FieldDictionary dashes_dict) = Some dashes_options \<and> record_separator dashes_options = Some dashes
   \<and> dashes \<noteq> Eps \<and> anchor_free dashes \<and> re_match dashes ''---'' 0 (length ''---'')
   \<and> options (FieldDictionary foo_dict) = Some \<lparr>record_separator = None\<rparr>
   \<and> on_line \<lparr>dictionary = FieldDictionary foo_dict, regex = [''Foo:'']\<rparr> open_foo ''a___b''
       = Some (Inr (initial\<lparr>multilineField := Some (''Foo:'', '' 1'' @ [LF] @ ''a___b'')\<rparr>))
   \<and> multilineField open_foo \<noteq> None"
  by code_simp

text \<open>
  Claim C9 with the pattern \<^verbatim>\<open>---\<close> on the line \<^verbatim>\<open>a---b\<close>, and with the default pattern on
  the lines \<^verbatim>\<open>a___b\<close> and \<^verbatim>\<open>___\<close>, each after a line that opened a field.
\<close>

theorem record_separator_anchoring_witness:
  "recordSeparator (FieldDictionary dashes_dict) = Inr dashes \<and> regexp_test dashes ''a---b'' \<and>
   treated_as_separator \<lparr>dictionary = FieldDictionary dashes_dict, regex = [''Foo:'']\<rparr> open_foo ''a---b'' \<and>
   recordSeparator (FieldDictionary foo_dict) = Inr DEFAULT_RECORD_SEPARATOR \<and>
   \<not> regexp_test DEFAULT_RECORD_SEPARATOR ''a___b'' \<and>
   multilineField (initial\<lparr>multilineField := Some (''Foo:'', '' 1'' @ [LF] @ ''a___b'')\<rparr>) \<noteq> None \<and>
   objects (initial\<lparr>multilineField := Some (''Foo:'', '' 1'' @ [LF] @ ''a___b'')\<rparr>) = objects open_foo \<and>
   regexp_test DEFAULT_RECORD_SEPARATOR ''___'' \<and>
   treated_as_separator \<lparr>dictionary = FieldDictionary foo_dict, regex = [''Foo:'']\<rparr> open_foo ''___''"
proof -
  note f = dashes_facts
  from record_separator_anchoring [where P = "\<lparr>dictionary = FieldDictionary dashes_dict, regex = [''Foo:'']\<rparr>"
      and opts = dashes_options and sep = dashes and line = "''a---b''" and v = "''---''"
      and u = "''a''" and w = "''b''" and st = open_foo] f
  have a: "recordSeparator (FieldDictionary dashes_dict) = Inr dashes \<and> regexp_test dashes ''a---b'' \<and>
   treated_as_separator \<lparr>dictionary = FieldDictionary dashes_dict, regex = [''Foo:'']\<rparr> open_foo ''a---b''"
    by (simp del: re_match.simps) blast
  from record_separator_anchoring [where P = "\<lparr>dictionary = FieldDictionary foo_dict, regex = [''Foo:'']\<rparr>"
      and opts = "\<lparr>record_separator = None\<rparr>" and line = "''a___b''" and st = open_foo
      and st' = "initial\<lparr>multilineField := Some (''Foo:'', '' 1'' @ [LF] @ ''a___b'')\<rparr>"] f
  have b: "recordSeparator (FieldDictionary foo_dict) = Inr DEFAULT_RECORD_SEPARATOR \<and>
   \<not> regexp_test DEFAULT_RECORD_SEPARATOR ''a___b'' \<and>
   multilineField (initial\<lparr>multilineField := Some (''Foo:'', '' 1'' @ [LF] @ ''a___b'')\<rparr>) \<noteq> None \<and>
   objects (initial\<lparr>multilineField := Some (''Foo:'', '' 1'' @ [LF] @ ''a___b'')\<rparr>) = objects open_foo"
    by simp
  from record_separator_anchoring [where P = "\<lparr>dictionary = FieldDictionary foo_dict, regex = [''Foo:'']\<rparr>"
      and opts = "\<lparr>record_separator = None\<rparr>" and line = "''___''" and st = open_foo] f
  have c: "regexp_test DEFAULT_RECORD_SEPARATOR ''___'' \<and>
   treated_as_separator \<lparr>dictionary = FieldDictionary foo_dict, regex = [''Foo:'']\<rparr> open_foo ''___''"
    by simp
  from a b c show ?thesis by simp
qed

text \<open>The line \<^verbatim>\<open>a---b\<close> in a report: it ends the first record.\<close>

lemma separator_in_a_line:
  "on_line \<lparr>dictionary = FieldDictionary dashes_dict, regex = [''Foo:'']\<rparr> open_foo ''a---b''
     = Some (Inr (initial\<lparr>objects := [JObj [(''foo'', JStr ''1'')]]\<rparr>))
   \<and> OrderParser dashes_dict = Inr \<lparr>dictionary = FieldDictionary dashes_dict, regex = [''Foo:'']\<rparr>
   \<and> parse_with dashes_dict (''Foo: 1'' @ [LF] @ ''a---b'' @ [LF] @ ''Foo: 2'')
       = Some (Inr [JObj [(''foo'', JStr ''1'')], JObj [(''foo'', JStr ''2'')]])"
  by code_simp

subsection \<open>Headers that follow each other on a line\<close>

text \<open>A header region takes the next region as its text, matched or not.\<close>

lemma header_takes_next_region:
  "isMatch part \<Longrightarrow>
     walk st (part # next_part # rest) =
       (case finish_open st of
          Inl e \<Rightarrow> Inl e
        | Inr st1 \<Rightarrow>
            walk (st1\<lparr>multilineField := Some (value part, value next_part)\<rparr>) rest)"
  by (simp split: sum.splits)

text \<open>
  Claim C4, at a failing input. On the line \<^verbatim>\<open>Fizz:Buzz: x\<close> the region after the header
  \<^verbatim>\<open>Fizz:\<close> is the header match \<^verbatim>\<open>Buzz:\<close>. The loop takes it as the text of \<^verbatim>\<open>Fizz:\<close>
  and steps over it: the record has \<open>fizz\<close> with the text \<^verbatim>\<open>Buzz: x\<close> and no \<open>buzz\<close>.
\<close>

theorem adjacent_headers_swallowed:
  "parse_with fizz_buzz_dict ''Fizz:Buzz: x'' = Some (Inr [JObj [(''fizz'', JStr ''Buzz: x'')]])"
  by code_simp

lemma adjacent_headers_regions:
  "splitByMatches [''Fizz:'', ''Buzz:''] ''Fizz:Buzz: x'' =
     Some [\<lparr>value = ''Fizz:'', isMatch = True\<rparr>, \<lparr>value = ''Buzz:'', isMatch = True\<rparr>,
           \<lparr>value = '' x'', isMatch = False\<rparr>]"
  by code_simp

subsection \<open>Configuration errors\<close>

text \<open>
  Claim C1, as stated, fails. The dictionary \<open>misconfigured_dict\<close> has a table processor
  without \<^verbatim>\<open>num_columns\<close> under the header \<^verbatim>\<open>Due:\<close>. Constructing the parser returns a
  parser, a report without that header is parsed, and an error is thrown only by the
  parse of a report that has the header.
\<close>

theorem configuration_error_deferred_counterexample:
  "OrderParser misconfigured_dict =
     Inr \<lparr>dictionary = FieldDictionary misconfigured_dict, regex = [''Foo:'', ''Due:'', ''Tab:'']\<rparr>
   \<and> parse_with misconfigured_dict ''Foo: 1'' = Some (Inr [JObj [(''foo'', JStr ''1'')]])
   \<and> parse_with misconfigured_dict ''Due: 1'' = Some (Inl this_before_super)"
  by code_simp

lemma FIELD_TYPES_unknown: "unknown_kind fd \<Longrightarrow> \<exists>m. FIELD_TYPES fd = Inl (TypeError m)"
  by (simp add: unknown_kind_def FIELD_TYPES_def)

lemma FIELD_TYPES_missing:
  "missing_option fd \<Longrightarrow> FIELD_TYPES fd = Inl this_before_super"
  by (auto simp: missing_option_def FIELD_TYPES_def trimmed_def field_followed_by_table_def
      primary_secondary_location_def requiredOption_str_def requiredOption_num_def
      split: if_splits option.splits sum.splits)

lemma process_all_fails:
  assumes "(header, val) \<in> set rawFields"
    and "\<And>ob. \<exists>e. process d ob typeName header val = Inl e"
  shows "\<exists>e. process_all d typeName rawFields ob = Inl e"
  using assms(1)
proof (induction rawFields arbitrary: ob)
  case Nil
  then show ?case by simp
next
  case (Cons entry rawFields)
  obtain h v where entry: "entry = (h, v)" by (cases entry)
  show ?case
  proof (cases "process d ob typeName h v")
    case (Inl e)
    with entry show ?thesis by simp
  next
    case (Inr ob1)
    with assms(2) [of ob] have "(h, v) \<noteq> (header, val)" by auto
    with Cons.prems entry have "(header, val) \<in> set rawFields" by auto
    from Cons.IH [OF this, of ob1] Inr entry show ?thesis by simp
  qed
qed

lemma isEmpty_holds:
  "(header, val) \<in> set object \<Longrightarrow> header \<noteq> ''_meta'' \<Longrightarrow> \<not> isEmpty object"
  by (cases object) (auto simp: isEmpty_def)

text \<open>
  Claim C1, amended. Constructing the parser checks no processor configuration and
  returns a parser for every dictionary. Let a type have a \<^verbatim>\<open>fields\<close> object that does
  not declare the header \<open>header\<close> (other than \<^verbatim>\<open>_meta\<close>), and let the configuration that
  its \<^verbatim>\<open>fields_by_header\<close> holds for \<open>header\<close> name an unknown kind or lack a required
  option. Then \<^verbatim>\<open>FieldDictionary.process\<close> throws each time it handles a capture of
  \<open>header\<close> for that type; cooking a record of that type that holds the header
  throws, and so does the flush of a builder that holds it: the configuration error
  comes up during the parse.
\<close>

theorem configuration_errors_at_process:
  "(\<exists>P. OrderParser d = Inr P) \<and>
   (header \<noteq> ''_meta'' \<and> map_of (types d) typeName = Some td \<and> type_fields td = Some fs \<and>
    find (\<lambda>(fld, h). h = header) fs = None \<and> fields_by_header td = Some fbh \<and>
    find (\<lambda>(h, fieldDef). h = header) fbh = Some (header, fd) \<and>
    (unknown_kind fd \<or> missing_option fd) \<longrightarrow>
      (\<exists>e. process d ob typeName header val = Inl e) \<and>
      ((header, val) \<in> set rawFields \<and> identifyObjectType rawFields d = Inr (Some typeName) \<longrightarrow>
         (\<exists>e. cookObject rawFields currObjects d = Inl e) \<and>
         (dictionary P = d \<and> currObject st = rawFields \<longrightarrow> (\<exists>e. cook_current P st = Inl e))))"
proof -
  have made: "\<exists>P. OrderParser d = Inr P" by (simp add: OrderParser_def)
  have thrown: "\<exists>e. process d ob' typeName header val = Inl e"
    if "header \<noteq> ''_meta''" "map_of (types d) typeName = Some td" "type_fields td = Some fs"
      "find (\<lambda>(fld, h). h = header) fs = None" "fields_by_header td = Some fbh"
      "find (\<lambda>(h, fieldDef). h = header) fbh = Some (header, fd)"
      "unknown_kind fd \<or> missing_option fd" for ob'
    using that FIELD_TYPES_unknown [of fd] FIELD_TYPES_missing [of fd]
    by (auto simp: process_def apply_processor_def)
  have flush: "\<exists>e. cook_current P st = Inl e"
    if "\<exists>e. cookObject rawFields (objects st) d = Inl e" "(header, val) \<in> set rawFields"
      "header \<noteq> ''_meta''" "dictionary P = d" "currObject st = rawFields"
    using that isEmpty_holds [OF that(2,3)] by (auto simp: cook_current_def)
  have cook': "\<exists>e. cookObject rawFields objs d = Inl e"
    if "\<And>ob'. \<exists>e. process d ob' typeName header val = Inl e" "(header, val) \<in> set rawFields"
      "identifyObjectType rawFields d = Inr (Some typeName)" for objs
    using process_all_fails [OF that(2) that(1), of "[]"] that(3)
    by (auto simp: cookObject_def)
  show ?thesis
  proof (intro conjI impI; (elim conjE)?)
    show "\<exists>P. OrderParser d = Inr P" by (rule made)
  next
    assume h: "header \<noteq> ''_meta''" "map_of (types d) typeName = Some td" "type_fields td = Some fs"
      "find (\<lambda>(fld, h). h = header) fs = None" "fields_by_header td = Some fbh"
      "find (\<lambda>(h, fieldDef). h = header) fbh = Some (header, fd)"
      "unknown_kind fd \<or> missing_option fd"
    from thrown [OF h] show "\<exists>e. process d ob typeName header val = Inl e" .
  next
    assume h: "header \<noteq> ''_meta''" "map_of (types d) typeName = Some td" "type_fields td = Some fs"
      "find (\<lambda>(fld, h). h = header) fs = None" "fields_by_header td = Some fbh"
      "find (\<lambda>(h, fieldDef). h = header) fbh = Some (header, fd)"
      "unknown_kind fd \<or> missing_option fd"
      and r: "(header, val) \<in> set rawFields" "identifyObjectType rawFields d = Inr (Some typeName)"
    from cook' [OF thrown [OF h] r] show "\<exists>e. cookObject rawFields currObjects d = Inl e" .
  next
    assume h: "header \<noteq> ''_meta''" "map_of (types d) typeName = Some td" "type_fields td = Some fs"
      "find (\<lambda>(fld, h). h = header) fs = None" "fields_by_header td = Some fbh"
      "find (\<lambda>(h, fieldDef). h = header) fbh = Some (header, fd)"
      "unknown_kind fd \<or> missing_option fd"
      and r: "(header, val) \<in> set rawFields" "identifyObjectType rawFields d = Inr (Some typeName)"
      and p: "dictionary P = d" "currObject st = rawFields"
    from flush [OF cook' [OF thrown [OF h] r] r(1) h(1) p]
    show "\<exists>e. cook_current P st = Inl e" .
  qed
qed

lemma misconfigured_facts:
  "map_of (types (FieldDictionary misconfigured_dict)) ''Order'' = Some misconfigured_type
   \<and> type_fields misconfigured_type = Some [(''foo'', ''Foo:'')]
   \<and> fields_by_header misconfigured_type
       = Some [(''Due:'', no_columns_opts), (''Tab:'', unknown_opts)]
   \<and> find (\<lambda>(fld, h). h = ''Due:'') [(''foo'', ''Foo:'')] = None
   \<and> find (\<lambda>(fld, h). h = ''Tab:'') [(''foo'', ''Foo:'')] = None
   \<and> find (\<lambda>(h, fieldDef). h = ''Due:'') [(''Due:'', no_columns_opts), (''Tab:'', unknown_opts)]
       = Some (''Due:'', no_columns_opts)
   \<and> find (\<lambda>(h, fieldDef). h = ''Tab:'') [(''Due:'', no_columns_opts), (''Tab:'', unknown_opts)]
       = Some (''Tab:'', unknown_opts)
   \<and> missing_option no_columns_opts \<and> unknown_kind unknown_opts
   \<and> identifyObjectType [(''Due:'', Text '' 1'')] (FieldDictionary misconfigured_dict)
       = Inr (Some ''Order'')
   \<and> identifyObjectType [(''Tab:'', Text '' 1'')] (FieldDictionary misconfigured_dict)
       = Inr (Some ''Order'')"
  by code_simp

text \<open>Claim C1, amended, on the two configurations of \<open>misconfigured_dict\<close>.\<close>

theorem configuration_errors_at_process_witness:
  "(\<exists>P. OrderParser misconfigured_dict = Inr P) \<and>
   (\<exists>e. process (FieldDictionary misconfigured_dict) [] ''Order'' ''Due:'' (Text '' 1'') = Inl e) \<and>
   (\<exists>e. cookObject [(''Due:'', Text '' 1'')] [] (FieldDictionary misconfigured_dict) = Inl e) \<and>
   (\<exists>e. cook_current \<lparr>dictionary = FieldDictionary misconfigured_dict, regex = []\<rparr>
           (initial\<lparr>currObject := [(''Due:'', Text '' 1'')]\<rparr>) = Inl e) \<and>
   (\<exists>e. process (FieldDictionary misconfigured_dict) [] ''Order'' ''Tab:'' (Text '' 1'') = Inl e) \<and>
   (\<exists>e. cookObject [(''Tab:'', Text '' 1'')] [] (FieldDictionary misconfigured_dict) = Inl e)"
proof -
  note f = misconfigured_facts
  from configuration_errors_at_process [where d = misconfigured_dict]
  have a: "\<exists>P. OrderParser misconfigured_dict = Inr P" by simp
  from configuration_errors_at_process [where d = "FieldDictionary misconfigured_dict"
      and header = "''Due:''" and typeName = "''Order''" and td = misconfigured_type
      and fs = "[(''foo'', ''Foo:'')]"
      and fbh = "[(''Due:'', no_columns_opts), (''Tab:'', unknown_opts)]"
      and fd = no_columns_opts and ob = "[]" and val = "Text '' 1''"
      and rawFields = "[(''Due:'', Text '' 1'')]" and currObjects = "[]"
      and P = "\<lparr>dictionary = FieldDictionary misconfigured_dict, regex = []\<rparr>"
      and st = "initial\<lparr>currObject := [(''Due:'', Text '' 1'')]\<rparr>"] f
  have b: "(\<exists>e. process (FieldDictionary misconfigured_dict) [] ''Order'' ''Due:'' (Text '' 1'') = Inl e) \<and>
   (\<exists>e. cookObject [(''Due:'', Text '' 1'')] [] (FieldDictionary misconfigured_dict) = Inl e) \<and>
   (\<exists>e. cook_current \<lparr>dictionary = FieldDictionary misconfigured_dict, regex = []\<rparr>
           (initial\<lparr>currObject := [(''Due:'', Text '' 1'')]\<rparr>) = Inl e)"
    by simp
  from configuration_errors_at_process [where d = "FieldDictionary misconfigured_dict"
      and header = "''Tab:''" and typeName = "''Order''" and td = misconfigured_type
      and fs = "[(''foo'', ''Foo:'')]"
      and fbh = "[(''Due:'', no_columns_opts), (''Tab:'', unknown_opts)]"
      and fd = unknown_opts and ob = "[]" and val = "Text '' 1''"
      and rawFields = "[(''Tab:'', Text '' 1'')]" and currObjects = "[]"] f
  have c: "(\<exists>e. process (FieldDictionary misconfigured_dict) [] ''Order'' ''Tab:'' (Text '' 1'') = Inl e) \<and>
   (\<exists>e. cookObject [(''Tab:'', Text '' 1'')] [] (FieldDictionary misconfigured_dict) = Inl e)"
    by simp
  from a b c show ?thesis by simp
qed

subsection \<open>Repeated headers\<close>

lemma obj_get_Nil: "obj_get [] k = None"
  by (simp add: obj_get_def)

lemma ignored_text_pushed:
  "ignored_text (obj_set object ''_meta'' (Warnings (push_message w ''ignored_text'' message)))
     = (case obj_get w ''ignored_text'' of Some messages \<Rightarrow> messages | None \<Rightarrow> []) @ [message]"
  by (simp add: ignored_text_def push_message_def obj_get_set_same split: option.splits)

lemma warn_on_warnings:
  assumes "obj_get object ''_meta'' = None \<or> (\<exists>w. obj_get object ''_meta'' = Some (Warnings w))"
  shows "\<exists>object1. warn object ''ignored_text'' message = Inr object1 \<and>
           ignored_text object1 = ignored_text object @ [message] \<and>
           (\<forall>k. k \<noteq> ''_meta'' \<longrightarrow> obj_get object1 k = obj_get object k)"
  using assms
proof
  assume none: "obj_get object ''_meta'' = None"
  then have "warn object ''ignored_text'' message =
      Inr (obj_set (obj_set object ''_meta'' (Warnings [])) ''_meta''
             (Warnings (push_message [] ''ignored_text'' message)))"
    by (simp add: warn_def Let_def obj_get_set_same)
  moreover from none have "ignored_text object = []" by (simp add: ignored_text_def)
  ultimately show ?thesis
    by (simp add: ignored_text_pushed obj_get_Nil obj_get_set_other)
next
  assume "\<exists>w. obj_get object ''_meta'' = Some (Warnings w)"
  then obtain w where w: "obj_get object ''_meta'' = Some (Warnings w)" by blast
  then have "warn object ''ignored_text'' message =
      Inr (obj_set object ''_meta'' (Warnings (push_message w ''ignored_text'' message)))"
    by (simp add: warn_def Let_def)
  moreover from w have "ignored_text object =
      (case obj_get w ''ignored_text'' of Some messages \<Rightarrow> messages | None \<Rightarrow> [])"
    by (simp add: ignored_text_def)
  ultimately show ?thesis
    by (simp add: ignored_text_pushed obj_get_set_other)
qed

subsection \<open>Records do not depend on the records before them\<close>

lemma no_owners_FieldDictionary: "no_owners (FieldDictionary d) = no_owners d"
  by (auto simp: no_owners_def FieldDictionary_def list_all_iff default_fields_by_header_def
      split: option.splits)

lemma ownerOf_no_owners: "no_owners d \<Longrightarrow> ownerOf d typeName = None"
  by (auto simp: ownerOf_def no_owners_def list_all_iff split: option.splits dest!: map_of_SomeD)

lemma unrelated_no_owners: "no_owners d \<Longrightarrow> unrelated d before rawFields"
  by (simp add: unrelated_def ownerOf_no_owners split: sum.splits option.splits)

lemma map_shift_upt: "map (\<lambda>i. n + i) [0..<m] = [n..<n + m]"
  by (induction m) simp_all

lemma find_owner_append:
  assumes "list_all (\<lambda>ob. \<not> owner_matches mf result ob) before"
  shows "find_owner mf result (before @ objs) =
           map_option (\<lambda>i. length before + i) (find_owner mf result objs)"
proof -
  let ?P = "\<lambda>i. owner_matches mf result ((before @ objs) ! i)"
  let ?Q = "\<lambda>i. owner_matches mf result (objs ! i)"
  have "[0..<length (before @ objs)] =
      [0..<length before] @ map (\<lambda>i. length before + i) [0..<length objs]"
    using upt_add_eq_append [of 0 "length before" "length objs"] by (simp add: map_shift_upt)
  moreover have "filter ?P [0..<length before] = []"
    using assms by (auto simp: filter_empty_conv list_all_iff nth_append)
  moreover have "filter ?P (map (\<lambda>i. length before + i) [0..<length objs]) =
      map (\<lambda>i. length before + i) (filter ?Q [0..<length objs])"
    by (simp add: filter_map comp_def)
  ultimately have "filter ?P [0..<length (before @ objs)] =
      map (\<lambda>i. length before + i) (filter ?Q [0..<length objs])"
    by simp
  then show ?thesis
    by (simp add: find_owner_def split: list.splits)
qed

lemma find_owner_less: "find_owner mf result objs = Some i \<Longrightarrow> i < length objs"
proof -
  assume "find_owner mf result objs = Some i"
  then obtain rest where
    f: "filter (\<lambda>i. owner_matches mf result (objs ! i)) [0..<length objs] = i # rest"
    by (auto simp: find_owner_def split: list.splits)
  have "i \<in> set (filter (\<lambda>i. owner_matches mf result (objs ! i)) [0..<length objs])"
    unfolding f by simp
  then show ?thesis by simp
qed

lemma place_object_unrelated:
  assumes "case owner of None \<Rightarrow> True
           | Some own \<Rightarrow> list_all (\<lambda>ob. \<not> owner_matches (match_on own) result ob) before"
  shows "place_object owner result (before @ objs) =
           (case place_object owner result objs of
              Inl e \<Rightarrow> Inl e
            | Inr (rs, printed) \<Rightarrow> Inr (before @ rs, printed))"
proof (cases owner)
  case None
  then show ?thesis by (simp add: place_object_def)
next
  case (Some own)
  with assms have b: "list_all (\<lambda>ob. \<not> owner_matches (match_on own) result ob) before" by simp
  show ?thesis
  proof (cases "find_owner (match_on own) result objs")
    case None
    with Some show ?thesis by (simp add: place_object_def find_owner_append [OF b])
  next
    case found: (Some i)
    from find_owner_less [OF found] have i: "i < length objs" .
    show ?thesis
      using Some found i
      by (simp add: place_object_def find_owner_append [OF b] nth_append list_update_append
          split: sum.splits)
  qed
qed

lemma cookObject_unrelated:
  assumes "unrelated d before rawFields"
  shows "cookObject rawFields (before @ objs) d =
           (case cookObject rawFields objs d of
              Inl e \<Rightarrow> Inl e
            | Inr (rs, printed) \<Rightarrow> Inr (before @ rs, printed))"
proof (cases "identifyObjectType rawFields d")
  case (Inl e)
  then show ?thesis by (simp add: cookObject_def)
next
  case (Inr t)
  show ?thesis
  proof (cases t)
    case None
    with Inr show ?thesis by (simp add: cookObject_def)
  next
    case (Some objectType)
    show ?thesis
    proof (cases "process_all d objectType rawFields []")
      case (Inl e)
      with Inr Some show ?thesis by (simp add: cookObject_def)
    next
      case res: (Inr result)
      from assms Inr Some res
      have "case ownerOf d objectType of None \<Rightarrow> True
            | Some own \<Rightarrow> list_all (\<lambda>ob. \<not> owner_matches (match_on own) result ob) before"
        by (simp add: unrelated_def split: option.splits)
      from place_object_unrelated [OF this] Inr Some res show ?thesis
        by (simp add: cookObject_def)
    qed
  qed
qed

lemma shift_fields [simp]:
  "objects (shift objs printed st) = objs @ objects st"
  "console (shift objs printed st) = printed @ console st"
  "currObject (shift objs printed st) = currObject st"
  "multilineField (shift objs printed st) = multilineField st"
  by (simp_all add: shift_def)

lemma shift_update [simp]:
  "shift objs printed (st\<lparr>currObject := ob\<rparr>) = (shift objs printed st)\<lparr>currObject := ob\<rparr>"
  "shift objs printed (st\<lparr>multilineField := m\<rparr>) =
     (shift objs printed st)\<lparr>multilineField := m\<rparr>"
  by (simp_all add: shift_def)

lemma shift_console:
  "shift objs printed (st\<lparr>console := console st @ extra\<rparr>) =
     (shift objs printed st)\<lparr>console := console (shift objs printed st) @ extra\<rparr>"
  by (simp add: shift_def)

lemma finish_open_shift:
  "finish_open (shift objs printed st) = map_sum id (shift objs printed) (finish_open st)"
  by (simp add: finish_open_def finishMultilineField_def split: option.splits sum.splits)

lemma cook_current_shift:
  assumes "isEmpty (currObject st) \<or> unrelated (dictionary P) objs (currObject st)"
  shows "cook_current P (shift objs printed st) =
           map_sum id (shift objs printed) (cook_current P st)"
proof (cases "isEmpty (currObject st)")
  case True
  then show ?thesis by (simp add: cook_current_def)
next
  case False
  with assms have "unrelated (dictionary P) objs (currObject st)" by simp
  note a = cookObject_unrelated [OF this, of "objects st"]
  show ?thesis
  proof (cases "cookObject (currObject st) (objects st) (dictionary P)")
    case (Inl e)
    with False a show ?thesis by (simp add: cook_current_def)
  next
    case (Inr r)
    obtain rs pr where r: "r = (rs, pr)" by (cases r)
    with False a Inr show ?thesis by (simp add: cook_current_def shift_def)
  qed
qed

lemma walk_shift:
  "walk (shift objs printed st) parts = map_sum id (shift objs printed) (walk st parts)"
proof (induction st parts rule: walk.induct)
  case (1 st)
  then show ?case by simp
next
  case (2 st part rest)
  show ?case
  proof (cases "isMatch part")
    case False
    show ?thesis
    proof (cases "multilineField st")
      case None
      show ?thesis
      proof (cases "trim (value part) \<noteq> []")
        case True
        show ?thesis
        proof (cases "warn (currObject st) ''ignored_text'' (ignored_message (value part))")
          case (Inl e)
          with False None True show ?thesis by simp
        next
          case (Inr object)
          with False None True "2.IH"(1) [OF False None True Inr] show ?thesis by simp
        qed
      next
        case F: False
        with False None "2.IH"(2) [OF False None] show ?thesis by simp
      qed
    next
      case (Some hv)
      obtain h v where hv: "hv = (h, v)" by (cases hv)
      with False Some "2.IH"(3) [OF False Some, of h v] show ?thesis by simp
    qed
  next
    case True
    show ?thesis
    proof (cases "finish_open st")
      case (Inl e)
      with True show ?thesis by (simp add: finish_open_shift)
    next
      case (Inr st1)
      then have fs: "finish_open (shift objs printed st) = Inr (shift objs printed st1)"
        by (simp add: finish_open_shift)
      show ?thesis
      proof (cases rest)
        case Nil
        with True Inr fs show ?thesis by simp
      next
        case (Cons next_part rest1)
        have "\<not> \<not> isMatch part" using True by simp
        from "2.IH"(5) [OF this Inr Cons] True Inr fs Cons show ?thesis by simp
      qed
    qed
  qed
qed


lemma flushed_shift: "flushed (shift objs printed st) = flushed st"
  by (cases "finish_open st") (simp_all add: flushed_def finish_open_shift)

lemma flush_shift:
  assumes "list_all (unrelated (dictionary P) objs) (flushed st)"
    and "finish_open st = Inr st1"
  shows "cook_current P (shift objs printed st1) =
           map_sum id (shift objs printed) (cook_current P st1)"
proof (rule cook_current_shift)
  from assms show "isEmpty (currObject st1) \<or> unrelated (dictionary P) objs (currObject st1)"
    by (cases "isEmpty (currObject st1)") (simp_all add: flushed_def)
qed

lemma on_line_shift:
  assumes "list_all (unrelated (dictionary P) objs) (cooked_line P st line)"
  shows "on_line P (shift objs printed st) line =
           map_option (map_sum id (shift objs printed)) (on_line P st line)"
proof (cases "recordSeparator (dictionary P)")
  case (Inl e)
  then show ?thesis by (simp add: on_line_def)
next
  case (Inr sep)
  show ?thesis
  proof (cases "regexp_test sep line")
    case True
    with assms Inr have fl: "list_all (unrelated (dictionary P) objs) (flushed st)"
      by (simp add: cooked_line_def)
    show ?thesis
    proof (cases "finish_open st")
      case (Inl e)
      with Inr True show ?thesis by (simp add: on_line_def finish_open_shift)
    next
      case fo: (Inr st1)
      note cs = flush_shift [OF fl fo, of printed]
      show ?thesis
      proof (cases "cook_current P st1")
        case (Inl e)
        with Inr True fo cs show ?thesis by (simp add: on_line_def finish_open_shift)
      next
        case cc: (Inr st2)
        with Inr True fo cs show ?thesis by (simp add: on_line_def finish_open_shift)
      qed
    qed
  next
    case False
    let ?st1 = "case multilineField st of None \<Rightarrow> st
                | Some (header, val) \<Rightarrow> st\<lparr>multilineField := Some (header, val @ [LF])\<rparr>"
    have st1: "(case multilineField (shift objs printed st) of None \<Rightarrow> shift objs printed st
                | Some (header, val) \<Rightarrow>
                    (shift objs printed st)\<lparr>multilineField := Some (header, val @ [LF])\<rparr>)
               = shift objs printed ?st1"
      by (simp split: option.splits)
    show ?thesis
    proof (cases "splitByMatches (regex P) line")
      case None
      with Inr False show ?thesis by (simp add: on_line_def)
    next
      case (Some parts)
      show ?thesis
      proof (cases "walk ?st1 parts")
        case (Inl e)
        with Inr False Some st1 show ?thesis
          by (simp add: on_line_def Let_def walk_shift)
      next
        case w: (Inr st2)
        with Inr False Some st1 show ?thesis
          by (simp add: on_line_def Let_def walk_shift shift_console)
      qed
    qed
  qed
qed

lemma on_close_shift:
  assumes "list_all (unrelated (dictionary P) objs) (flushed st)"
  shows "on_close P (shift objs printed st) = map_sum id ((@) objs) (on_close P st)"
proof (cases "finish_open st")
  case (Inl e)
  then show ?thesis by (simp add: on_close_def finish_open_shift)
next
  case fo: (Inr st1)
  note cs = flush_shift [OF assms fo, of printed]
  from fo cs show ?thesis
    by (cases "cook_current P st1") (simp_all add: on_close_def finish_open_shift)
qed

text \<open>The rest of a parse, from a state on: the remaining lines, then the end of the input.\<close>

lemma rest_of_parse_shift:
  "list_all (unrelated (dictionary P) objs) (cooked_run P st lines) \<Longrightarrow>
     (case run_lines P (shift objs printed st) lines of
        None \<Rightarrow> None
      | Some (Inl e) \<Rightarrow> Some (Inl e)
      | Some (Inr st1) \<Rightarrow> Some (on_close P st1))
     = map_option (map_sum id ((@) objs))
         (case run_lines P st lines of
            None \<Rightarrow> None
          | Some (Inl e) \<Rightarrow> Some (Inl e)
          | Some (Inr st1) \<Rightarrow> Some (on_close P st1))"
proof (induction lines arbitrary: st)
  case Nil
  then show ?case by (simp add: on_close_shift id_def)
next
  case (Cons line lines)
  from Cons.prems have one: "list_all (unrelated (dictionary P) objs) (cooked_line P st line)"
    by simp
  note step = on_line_shift [OF one, of printed]
  show ?case
  proof (cases "on_line P st line")
    case None
    with step show ?thesis by simp
  next
    case (Some r)
    show ?thesis
    proof (cases r)
      case (Inl e)
      with Some step show ?thesis by simp
    next
      case (Inr st1)
      with Some Cons.prems have "list_all (unrelated (dictionary P) objs) (cooked_run P st1 lines)"
        by simp
      from Cons.IH [OF this] Some Inr step show ?thesis by simp
    qed
  qed
qed

lemma separator_after_close:
  assumes sep: "recordSeparator (dictionary P) = Inr sep" "regexp_test sep line"
    and close: "on_close P st = Inr rs"
  shows "\<exists>printed. on_line P st line = Some (Inr (shift rs printed initial))"
proof -
  from close obtain st1 st2 where s: "finish_open st = Inr st1" "cook_current P st1 = Inr st2"
    "objects st2 = rs"
    by (auto simp: on_close_def split: sum.splits)
  from finish_open_closed [OF s(1)] cook_current_fields [OF s(2)]
  have "multilineField st2 = None" by simp
  with s(3) have "st2\<lparr>currObject := []\<rparr> = shift rs (console st2) initial"
    by (simp add: shift_def initial_def)
  with sep s show ?thesis by (auto simp: on_line_def)
qed

text \<open>
  A line that the separator pattern matches is treated as a separator whatever else
  it holds: after it the builder is fresh and no field is open.
\<close>

lemma separator_line:
  assumes "recordSeparator (dictionary P) = Inr sep" "regexp_test sep line"
    and "on_line P st line = Some (Inr st1)"
  shows "currObject st1 = [] \<and> multilineField st1 = None"
  using assms
  by (auto simp: on_line_def split: sum.splits
      dest!: finish_open_closed dest: cook_current_fields)

text \<open>
  On the lines that the line reader delivers: a separator line between the lines of
  two reports gives the records of the first followed by the records of the second,
  when no capture of the second is filed under a record of the first.
\<close>

lemma lines_concatenation:
  assumes sep: "recordSeparator (dictionary P) = Inr sep" "regexp_test sep line"
    and a: "parse_lines P xs = Some (Inr ra)"
    and b: "parse_lines P ys = Some (Inr rb)"
    and un: "list_all (unrelated (dictionary P) ra) (cooked_run P initial ys)"
  shows "parse_lines P (xs @ line # ys) = Some (Inr (ra @ rb))"
proof -
  from a obtain sa where sa: "run_lines P initial xs = Some (Inr sa)" "on_close P sa = Inr ra"
    by (auto simp: parse_lines_def split: option.splits sum.splits)
  from separator_after_close [OF sep sa(2)] obtain printed where
    step: "on_line P sa line = Some (Inr (shift ra printed initial))" by blast
  have "run_lines P initial (xs @ line # ys) = run_lines P (shift ra printed initial) ys"
    using sa(1) step by (simp add: run_lines_append)
  then have "parse_lines P (xs @ line # ys) =
      (case run_lines P (shift ra printed initial) ys of
         None \<Rightarrow> None
       | Some (Inl e) \<Rightarrow> Some (Inl e)
       | Some (Inr st1) \<Rightarrow> Some (on_close P st1))"
    by (simp add: parse_lines_def)
  also have "\<dots> = map_option (map_sum id ((@) ra)) (parse_lines P ys)"
    unfolding parse_lines_def by (rule rest_of_parse_shift [OF un])
  finally show ?thesis using b by simp
qed

subsection \<open>Joining two reports\<close>

lemma readline_one_line:
  "one_line s \<Longrightarrow> readline_from cur (s @ LF # rest) = (rev cur @ s) # readline_from [] rest"
  by (induction s arbitrary: cur) (auto simp: one_line_def)

lemma readline_join:
  "(A = [] \<and> cur \<noteq> []) \<or> (A \<noteq> [] \<and> last A \<noteq> LF) \<Longrightarrow>
     readline_from cur (A @ LF # rest) = readline_from cur A @ readline_from [] rest"
proof (induction cur A rule: readline_from.induct)
  case (1 cur)
  then show ?case by simp
next
  case (2 cur c cs)
  from "2.prems" have last: "last (c # cs) \<noteq> LF" by simp
  show ?case
  proof (cases "c = LF")
    case True
    with last have cs: "cs \<noteq> []" by auto
    with last have "(cs = [] \<and> [] \<noteq> ([]::string)) \<or> (cs \<noteq> [] \<and> last cs \<noteq> LF)"
      by simp
    from "2.IH"(1) [OF True this] True show ?thesis by simp
  next
    case False
    show ?thesis
    proof (cases "c = CR")
      case True
      show ?thesis
      proof (cases "cs = []")
        case e: True
        with False True show ?thesis by simp
      next
        case cs: False
        let ?next = "if cs \<noteq> [] \<and> hd cs = LF then tl cs else cs"
        have nx: "(if cs @ LF # rest \<noteq> [] \<and> hd (cs @ LF # rest) = LF
                   then tl (cs @ LF # rest) else cs @ LF # rest) = ?next @ LF # rest"
          using cs by simp
        have "?next \<noteq> [] \<and> last ?next \<noteq> LF"
        proof (cases "hd cs = LF")
          case h: True
          with cs last have "tl cs \<noteq> []" by (cases cs) auto
          with cs last h show ?thesis by (cases cs) auto
        next
          case h: False
          with cs last show ?thesis by simp
        qed
        then have "(?next = [] \<and> [] \<noteq> ([]::string)) \<or>
            (?next \<noteq> [] \<and> last ?next \<noteq> LF)"
          by simp
        from "2.IH"(2) [OF False True this] False True nx show ?thesis
          by (simp del: hd_append2 tl_append2)
      qed
    next
      case nc: False
      have "(cs = [] \<and> c # cur \<noteq> []) \<or> (cs \<noteq> [] \<and> last cs \<noteq> LF)"
        using last by (cases "cs = []") simp_all
      from "2.IH"(3) [OF False nc this] False nc show ?thesis by simp
    qed
  qed
qed

lemma readline_concatenation:
  assumes "A \<noteq> []" "last A \<noteq> LF" "one_line S"
  shows "readline (A @ [LF] @ S @ [LF] @ B) = readline A @ S # readline B"
proof -
  have "readline_from [] (A @ LF # (S @ LF # B)) =
      readline_from [] A @ readline_from [] (S @ LF # B)"
    by (rule readline_join) (use assms in simp)
  also have "readline_from [] (S @ LF # B) = S # readline_from [] B"
    using readline_one_line [OF assms(3), of "[]" B] by simp
  finally show ?thesis by (simp add: readline_def)
qed

subsection \<open>The texts that a builder holds\<close>


lemma set_obj_set: "set (obj_set ob k v) \<subseteq> insert (k, v) (set ob)"
  using set_obj_replace [of ob k v] set_obj_create [of ob k v] by (simp add: obj_set_def)

lemma texts_held_set:
  "texts_held object \<Longrightarrow>
   (case c of Text s \<Rightarrow> s \<noteq> [] \<and> k \<noteq> ''_meta'' | Warnings w \<Rightarrow> True) \<Longrightarrow>
     texts_held (obj_set object k c)"
  using set_obj_set [of object k c] by (auto simp: texts_held_def list_all_iff)

lemma texts_held_get:
  "texts_held object \<Longrightarrow> obj_get object k = Some (Text s) \<Longrightarrow> s \<noteq> [] \<and> k \<noteq> ''_meta''"
  by (auto simp: texts_held_def list_all_iff obj_get_def dest!: map_of_SomeD)

lemma texts_held_meta:
  "texts_held object \<Longrightarrow>
     obj_get object ''_meta'' = None \<or> (\<exists>w. obj_get object ''_meta'' = Some (Warnings w))"
proof (cases "obj_get object ''_meta''")
  case None
  then show ?thesis by simp
next
  case (Some c)
  assume "texts_held object"
  with Some texts_held_get [of object "''_meta''"] show ?thesis by (cases c) auto
qed

lemma warn_texts_held:
  assumes "texts_held object"
  shows "\<exists>object1. warn object warnType message = Inr object1 \<and> texts_held object1"
proof -
  from texts_held_meta [OF assms] show ?thesis
  proof
    assume "obj_get object ''_meta'' = None"
    then have "warn object warnType message =
        Inr (obj_set (obj_set object ''_meta'' (Warnings [])) ''_meta''
               (Warnings (push_message [] warnType message)))"
      by (simp add: warn_def Let_def obj_get_set_same)
    with assms show ?thesis by (simp add: texts_held_set)
  next
    assume "\<exists>w. obj_get object ''_meta'' = Some (Warnings w)"
    then obtain w where "obj_get object ''_meta'' = Some (Warnings w)" by blast
    then have "warn object warnType message =
        Inr (obj_set object ''_meta'' (Warnings (push_message w warnType message)))"
      by (simp add: warn_def Let_def)
    with assms show ?thesis by (simp add: texts_held_set)
  qed
qed

lemma store_texts_held:
  assumes "texts_held object" "val \<noteq> []" "fld \<noteq> ''_meta''"
  shows "\<exists>object1. store object fld val = Inr object1 \<and> texts_held object1"
proof (cases "obj_get object fld")
  case None
  with assms show ?thesis by (simp add: store_def texts_held_set)
next
  case (Some old)
  show ?thesis
  proof (cases "truthy_capture (Some old)")
    case True
    from warn_texts_held [OF assms(1), of "''ignored_text''" "repeated_message fld old"]
    obtain object1 where "warn object ''ignored_text'' (repeated_message fld old) = Inr object1"
      "texts_held object1" by blast
    with Some True assms show ?thesis by (simp add: store_def texts_held_set)
  next
    case False
    with Some assms show ?thesis by (simp add: store_def texts_held_set)
  qed
qed


lemma allMatches_from_in_order:
  assumes alts: "\<forall>h \<in> set alts. h \<noteq> []"
  shows "allMatches_from alts s i acc = Some ms \<Longrightarrow>
           \<exists>new. ms = acc @ new \<and> in_order alts (length s) i new"
proof (induction "Suc (length s) - i" arbitrary: i acc rule: less_induct)
  case less
  show ?case
  proof (cases "regex_exec alts s i")
    case None
    with less.prems have "ms = acc" by (subst (asm) allMatches_from.simps) simp
    then show ?thesis by simp
  next
    case (Some m)
    obtain q h where m: "m = (q, h)" by (cases m)
    from regex_exec_Some [OF Some [unfolded m]] alts
    have b: "h \<in> set alts" "h \<noteq> []" "i \<le> q" "q + length h \<le> length s" by auto
    from b(2) have "0 < length h" by simp
    with b(3,4) have d: "Suc (length s) - (q + length h) < Suc (length s) - i"
      by arith
    from less.prems Some m
    have "allMatches_from alts s (q + length h) (acc @ [(q, h)]) = Some ms"
      by (subst (asm) allMatches_from.simps) simp
    from less.hyps [OF d this] obtain new where
      "ms = (acc @ [(q, h)]) @ new" "in_order alts (length s) (q + length h) new" by blast
    with b have "ms = acc @ (q, h) # new \<and> in_order alts (length s) i ((q, h) # new)" by simp
    then show ?thesis by blast
  qed
qed

lemma split_regions_filled:
  "in_order alts (length s) c ms \<Longrightarrow> c \<le> length s \<Longrightarrow>
   list_all (\<lambda>r. value r \<noteq> []) results \<Longrightarrow>
   list_all (\<lambda>r. isMatch r \<longrightarrow> value r \<in> set alts) results \<Longrightarrow>
   split_regions s ms c results = (c', rs) \<Longrightarrow>
     list_all (\<lambda>r. value r \<noteq> []) rs \<and>
     list_all (\<lambda>r. isMatch r \<longrightarrow> value r \<in> set alts) rs \<and> c' \<le> length s"
proof (induction ms arbitrary: c results)
  case Nil
  then show ?case by simp
next
  case (Cons m ms)
  obtain q h where m: "m = (q, h)" by (cases m)
  from Cons.prems(1) m have b: "c \<le> q" "h \<noteq> []" "h \<in> set alts"
    "q + length h \<le> length s" "in_order alts (length s) (q + length h) ms" by simp_all
  let ?results1 = "if c \<noteq> q
     then results @ [\<lparr>value = slice s (int c) (int q), isMatch = False\<rparr>] else results"
  have gap: "slice s (int c) (int q) \<noteq> []" if "c \<noteq> q"
  proof -
    from that b have "c < q" "q \<le> length s" by simp_all
    then show ?thesis by (simp add: slice_inside)
  qed
  have f1: "list_all (\<lambda>r. value r \<noteq> []) (?results1 @ [\<lparr>value = h, isMatch = True\<rparr>])"
    using Cons.prems(3) b(2) gap by simp
  have f2: "list_all (\<lambda>r. isMatch r \<longrightarrow> value r \<in> set alts)
      (?results1 @ [\<lparr>value = h, isMatch = True\<rparr>])"
    using Cons.prems(4) b(3) by simp
  from Cons.prems(5) m
  have "split_regions s ms (q + length h) (?results1 @ [\<lparr>value = h, isMatch = True\<rparr>])
      = (c', rs)"
    by (simp add: Let_def)
  from Cons.IH [OF b(5) b(4) f1 f2 this] show ?case .
qed

lemma splitByMatches_filled:
  assumes alts: "\<forall>h \<in> set alts. h \<noteq> []"
    and parts: "splitByMatches alts s = Some parts"
  shows "(list_all (\<lambda>r. value r \<noteq> []) parts \<or> list_all (\<lambda>r. \<not> isMatch r) parts)
       \<and> list_all (\<lambda>r. isMatch r \<longrightarrow> value r \<in> set alts) parts"
proof -
  from parts obtain ms where ms: "allMatches alts s = Some ms"
    by (auto simp: splitByMatches_def split: option.splits)
  obtain c rs where sr: "split_regions s ms 0 [] = (c, rs)" by (cases "split_regions s ms 0 []")
  from allMatches_from_in_order [OF alts ms [unfolded allMatches_def]]
  have "in_order alts (length s) 0 ms" by simp
  from split_regions_filled [OF this _ _ _ sr]
  have rs: "list_all (\<lambda>r. value r \<noteq> []) rs"
    "list_all (\<lambda>r. isMatch r \<longrightarrow> value r \<in> set alts) rs" "c \<le> length s" by simp_all
  from parts ms sr have p: "parts = (if c \<noteq> length s \<or> rs = []
      then rs @ [\<lparr>value = slice_from s (int c), isMatch = False\<rparr>] else rs)"
    by (simp add: splitByMatches_def)
  show ?thesis
  proof (cases "c \<noteq> length s")
    case True
    with rs(3) have "slice_from s (int c) \<noteq> []"
      by (simp add: slice_from_def slice_index_nat)
    with p True rs show ?thesis by simp
  next
    case False
    with p rs show ?thesis by (cases "rs = []") simp_all
  qed
qed


lemma finish_open_scanning:
  assumes "scanning st"
    and "case multilineField st of None \<Rightarrow> True | Some (header, val) \<Rightarrow> val \<noteq> []"
  shows "\<exists>st1. finish_open st = Inr st1 \<and> scanning st1 \<and> multilineField st1 = None"
proof (cases "multilineField st")
  case None
  with assms show ?thesis by (simp add: finish_open_def)
next
  case (Some hv)
  obtain header val where hv: "hv = (header, val)" by (cases hv)
  from assms Some hv have "texts_held (currObject st)" "val \<noteq> []" "header \<noteq> ''_meta''"
    by (simp_all add: scanning_def)
  from store_texts_held [OF this] obtain object1 where
    "store (currObject st) header val = Inr object1" "texts_held object1" by blast
  with Some hv show ?thesis
    by (simp add: finish_open_def finishMultilineField_def scanning_def)
qed

text \<open>
  On regions as the matcher produces them, the loop over a line never throws, and it
  keeps the builder such a builder; so does every line, from the initial state on.
\<close>

lemma walk_scanning:
  "list_all (\<lambda>r. value r \<noteq> []) parts \<or> list_all (\<lambda>r. \<not> isMatch r) parts \<Longrightarrow>
   list_all (\<lambda>r. isMatch r \<longrightarrow> value r \<noteq> ''_meta'') parts \<Longrightarrow>
   scanning st \<Longrightarrow>
   (parts \<noteq> [] \<longrightarrow>
      (case multilineField st of None \<Rightarrow> True | Some (header, val) \<Rightarrow> val \<noteq> [])) \<Longrightarrow>
     \<exists>st1. walk st parts = Inr st1 \<and> scanning st1"
proof (induction st parts rule: walk.induct)
  case (1 st)
  then show ?case by simp
next
  case (2 st part rest)
  from "2.prems"(1) have regions:
    "list_all (\<lambda>r. value r \<noteq> []) rest \<or> list_all (\<lambda>r. \<not> isMatch r) rest"
    by auto
  from "2.prems"(2) have headers: "list_all (\<lambda>r. isMatch r \<longrightarrow> value r \<noteq> ''_meta'') rest"
    by simp
  from "2.prems"(4) have open_text:
    "case multilineField st of None \<Rightarrow> True | Some (header, val) \<Rightarrow> val \<noteq> []" by simp
  show ?case
  proof (cases "isMatch part")
    case False
    show ?thesis
    proof (cases "multilineField st")
      case None
      show ?thesis
      proof (cases "trim (value part) \<noteq> []")
        case True
        from "2.prems"(3) have "texts_held (currObject st)" by (simp add: scanning_def)
        from warn_texts_held [OF this, of "''ignored_text''" "ignored_message (value part)"]
        obtain object1 where
          w: "warn (currObject st) ''ignored_text'' (ignored_message (value part)) = Inr object1"
          "texts_held object1" by blast
        have "scanning (st\<lparr>currObject := object1\<rparr>)"
          using w(2) None by (simp add: scanning_def)
        moreover have "rest \<noteq> [] \<longrightarrow> (case multilineField (st\<lparr>currObject := object1\<rparr>) of
            None \<Rightarrow> True | Some (header, val) \<Rightarrow> val \<noteq> [])"
          using None by simp
        ultimately show ?thesis
          using "2.IH"(1) [OF False None True w(1) regions headers] False None True w(1) by simp
      next
        case blank: False
        from "2.IH"(2) [OF False None blank regions headers "2.prems"(3)] None False blank
        show ?thesis by simp
      qed
    next
      case (Some hv)
      obtain header val where hv: "hv = (header, val)" by (cases hv)
      have "scanning (st\<lparr>multilineField := Some (header, val @ value part)\<rparr>)"
        using "2.prems"(3) Some hv by (simp add: scanning_def)
      moreover have "rest \<noteq> [] \<longrightarrow>
          (case multilineField (st\<lparr>multilineField := Some (header, val @ value part)\<rparr>) of
             None \<Rightarrow> True | Some (header, val) \<Rightarrow> val \<noteq> [])"
        using open_text Some hv by simp
      ultimately show ?thesis
        using "2.IH"(3) [OF False Some, of header val, OF _ regions headers] False Some hv
        by simp
    qed
  next
    case True
    from finish_open_scanning [OF "2.prems"(3) open_text] obtain st1 where
      fo: "finish_open st = Inr st1" "scanning st1" "multilineField st1 = None" by blast
    from "2.prems"(2) True have h: "value part \<noteq> ''_meta''" by simp
    have nn: "\<not> \<not> isMatch part" using True by simp
    show ?thesis
    proof (cases rest)
      case Nil
      have "scanning (st1\<lparr>multilineField := Some (value part, [])\<rparr>)"
        using fo(2) h by (simp add: scanning_def)
      with True fo(1) Nil show ?thesis by simp
    next
      case (Cons next_part rest1)
      from "2.prems"(1) True Cons have filled: "value next_part \<noteq> []"
        "list_all (\<lambda>r. value r \<noteq> []) rest1 \<or> list_all (\<lambda>r. \<not> isMatch r) rest1"
        by auto
      from headers Cons have headers1:
        "list_all (\<lambda>r. isMatch r \<longrightarrow> value r \<noteq> ''_meta'') rest1"
        by simp
      have "scanning (st1\<lparr>multilineField := Some (value part, value next_part)\<rparr>)"
        using fo(2) h by (simp add: scanning_def)
      moreover have "rest1 \<noteq> [] \<longrightarrow>
          (case multilineField (st1\<lparr>multilineField := Some (value part, value next_part)\<rparr>) of
             None \<Rightarrow> True | Some (header, val) \<Rightarrow> val \<noteq> [])"
        using filled(1) by simp
      ultimately show ?thesis
        using "2.IH"(5) [OF nn fo(1) Cons filled(2) headers1] True fo(1) Cons by simp
    qed
  qed
qed

lemma on_line_scanning:
  assumes headers: "\<forall>h \<in> set (regex P). h \<noteq> [] \<and> h \<noteq> ''_meta''"
    and st: "scanning st"
    and step: "on_line P st line = Some (Inr st1)"
  shows "scanning st1"
proof (cases "recordSeparator (dictionary P)")
  case (Inl e)
  with step show ?thesis by (simp add: on_line_def)
next
  case (Inr sep)
  show ?thesis
  proof (cases "regexp_test sep line")
    case True
    with Inr step obtain st2 where "st1 = st2\<lparr>currObject := []\<rparr>" "multilineField st2 = None"
      by (auto simp: on_line_def split: sum.splits
          dest!: finish_open_closed dest: cook_current_fields)
    then show ?thesis by (simp add: scanning_def texts_held_def)
  next
    case False
    let ?st0 = "case multilineField st of None \<Rightarrow> st
                | Some (header, val) \<Rightarrow> st\<lparr>multilineField := Some (header, val @ [LF])\<rparr>"
    from Inr False step obtain parts where parts: "splitByMatches (regex P) line = Some parts"
      by (auto simp: on_line_def Let_def split: option.splits)
    from headers have "\<forall>h \<in> set (regex P). h \<noteq> []" by simp
    from splitByMatches_filled [OF this parts]
    have r: "list_all (\<lambda>r. value r \<noteq> []) parts \<or> list_all (\<lambda>r. \<not> isMatch r) parts"
      "list_all (\<lambda>r. isMatch r \<longrightarrow> value r \<in> set (regex P)) parts" by simp_all
    from r(2) headers have h: "list_all (\<lambda>r. isMatch r \<longrightarrow> value r \<noteq> ''_meta'') parts"
      by (auto simp: list_all_iff)
    have s0: "scanning ?st0" using st by (auto simp: scanning_def split: option.splits)
    have "parts \<noteq> [] \<longrightarrow> (case multilineField ?st0 of None \<Rightarrow> True
        | Some (header, val) \<Rightarrow> val \<noteq> [])"
      by (auto split: option.splits)
    from walk_scanning [OF r(1) h s0 this] obtain st2 where
      w: "walk ?st0 parts = Inr st2" "scanning st2" by blast
    with Inr False step parts
    have "st1 = st2 \<or> st1 = st2\<lparr>console := console st2 @ [Skipping line]\<rparr>"
      by (auto simp: on_line_def Let_def split: if_splits)
    with w(2) show ?thesis by (auto simp: scanning_def)
  qed
qed

lemma run_lines_scanning:
  assumes headers: "\<forall>h \<in> set (regex P). h \<noteq> [] \<and> h \<noteq> ''_meta''"
  shows "scanning st \<Longrightarrow> run_lines P st lines = Some (Inr st1) \<Longrightarrow> scanning st1"
proof (induction lines arbitrary: st)
  case Nil
  then show ?case by simp
next
  case (Cons line lines)
  from Cons.prems(2) obtain st2 where s: "on_line P st line = Some (Inr st2)"
    "run_lines P st2 lines = Some (Inr st1)"
    by (auto split: option.splits sum.splits)
  from on_line_scanning [OF headers Cons.prems(1) s(1)] have "scanning st2" .
  from Cons.IH [OF this s(2)] show ?case .
qed

lemma scanning_initial: "scanning initial"
  by (simp add: scanning_def initial_def texts_held_def)

lemma scanner_texts_held:
  assumes "\<forall>h \<in> set (regex P). h \<noteq> [] \<and> h \<noteq> ''_meta''"
    and "run_lines P initial lines = Some (Inr st)"
  shows "texts_held (currObject st)"
  using run_lines_scanning [OF assms(1) scanning_initial assms(2)] by (simp add: scanning_def)

text \<open>
  Claim C5. When a header is finalized and the builder already holds a text for it,
  \<^verbatim>\<open>store\<close> adds to \<^verbatim>\<open>ignored_text\<close> the warning that quotes the text held, puts the new
  text in its place and leaves every other capture alone. The builder is one that the
  scanner works on: its texts are not empty and \<^verbatim>\<open>_meta\<close> holds no text (\<open>texts_held\<close>),
  which every builder of a parse is when no header is empty or named \<^verbatim>\<open>_meta\<close>
  (\<open>scanner_texts_held\<close>, \<open>walk_scanning\<close>).
\<close>

theorem repeated_header_store:
  assumes builder: "texts_held object"
    and held: "obj_get object fld = Some (Text old)"
  shows "\<exists>object1. store object fld val = Inr object1 \<and>
           obj_get object1 fld = Some (Text val) \<and>
           ignored_text object1 = ignored_text object @ [repeated_message fld (Text old)] \<and>
           (\<forall>k. k \<noteq> fld \<and> k \<noteq> ''_meta'' \<longrightarrow> obj_get object1 k = obj_get object k)"
proof -
  from texts_held_get [OF builder held] have old: "old \<noteq> []" and fld: "fld \<noteq> ''_meta''"
    by simp_all
  from warn_on_warnings [OF texts_held_meta [OF builder], of "repeated_message fld (Text old)"]
  obtain object1 where
    w: "warn object ''ignored_text'' (repeated_message fld (Text old)) = Inr object1"
    "ignored_text object1 = ignored_text object @ [repeated_message fld (Text old)]"
    "\<forall>k. k \<noteq> ''_meta'' \<longrightarrow> obj_get object1 k = obj_get object k" by blast
  from held old w(1) have "store object fld val = Inr (obj_set object1 fld (Text val))"
    by (simp add: store_def)
  moreover have "ignored_text (obj_set object1 fld (Text val)) = ignored_text object1"
    using fld by (simp add: ignored_text_def obj_get_set_other)
  ultimately show ?thesis
    using w(2,3) by (auto simp: obj_get_set_same obj_get_set_other)
qed

text \<open>
  Claim C5 on the second \<^verbatim>\<open>Foo:\<close> of the report \<open>repeated_text\<close>, and the records that
  the parser produces for that report.
\<close>

theorem repeated_header_store_witness:
  "store [(''Foo:'', Text ('' 1'' @ [LF]))] ''Foo:'' '' 2''
     = Inr [(''Foo:'', Text '' 2''),
            (''_meta'',
             Warnings [(''ignored_text'', [repeated_message ''Foo:'' (Text ('' 1'' @ [LF]))])])]
   \<and> ignored_text [(''Foo:'', Text '' 2''),
            (''_meta'',
             Warnings [(''ignored_text'', [repeated_message ''Foo:'' (Text ('' 1'' @ [LF]))])])]
       = [repeated_message ''Foo:'' (Text ('' 1'' @ [LF]))]
   \<and> parse_with foo_dict repeated_text
       = Some (Inr [JObj [(''foo'', JStr ''2''),
                          (''_meta'', JObj [(''ignored_text'',
                             JArr [JStr (''Repeated value for '' @ [CHR 0x27] @ ''Foo:'' @ [CHR 0x27]
                                         @ '', '' @ [CHR 0x27] @ '' 1'' @ [LF] @ [CHR 0x27])])])],
                    JObj [(''foo'', JStr ''3'')]])"
proof -
  have h: "texts_held [(''Foo:'', Text ('' 1'' @ [LF]))]"
    "obj_get [(''Foo:'', Text ('' 1'' @ [LF]))] ''Foo:'' = Some (Text ('' 1'' @ [LF]))"
    by (simp_all add: texts_held_def obj_get_def)
  have a: "store [(''Foo:'', Text ('' 1'' @ [LF]))] ''Foo:'' '' 2''
     = Inr [(''Foo:'', Text '' 2''),
            (''_meta'',
             Warnings [(''ignored_text'', [repeated_message ''Foo:'' (Text ('' 1'' @ [LF]))])])]"
    by code_simp
  from repeated_header_store [OF h, of "'' 2''"] a
  have b: "ignored_text [(''Foo:'', Text '' 2''),
            (''_meta'',
             Warnings [(''ignored_text'', [repeated_message ''Foo:'' (Text ('' 1'' @ [LF]))])])]
       = [repeated_message ''Foo:'' (Text ('' 1'' @ [LF]))]"
    by (auto simp: ignored_text_def obj_get_def)
  have c: "parse_with foo_dict repeated_text
       = Some (Inr [JObj [(''foo'', JStr ''2''),
                          (''_meta'', JObj [(''ignored_text'',
                             JArr [JStr (''Repeated value for '' @ [CHR 0x27] @ ''Foo:'' @ [CHR 0x27]
                                         @ '', '' @ [CHR 0x27] @ '' 1'' @ [LF] @ [CHR 0x27])])])],
                    JObj [(''foo'', JStr ''3'')]])"
    by code_simp
  from a b c show ?thesis by simp
qed

subsection \<open>A line feed at the end of a capture\<close>

lemma is_space_LF: "is_space LF"
  by (simp add: is_space_def LF_def)

lemma trim_Nil: "trim [] = []"
  by (simp add: trim_def)

lemma trim_LF: "trim (s @ [LF]) = trim s"
proof (cases "\<forall>c \<in> set s. is_space c")
  case True
  then have e: "dropWhile is_space s = []" "dropWhile is_space (s @ [LF]) = []"
    by (simp_all add: is_space_LF)
  show ?thesis unfolding trim_def e ..
next
  case False
  then obtain x where "x \<in> set s" "\<not> is_space x" by auto
  then have "dropWhile is_space (s @ [LF]) = dropWhile is_space s @ [LF]"
    by (rule dropWhile_append1)
  then show ?thesis by (simp add: trim_def is_space_LF)
qed

lemma splitLines_LF: "CR \<notin> set s \<Longrightarrow> splitLines (s @ [LF]) = splitLines s @ [[]]"
proof (induction s)
  case Nil
  then show ?case by simp
next
  case (Cons c cs)
  then show ?case
    using splitLines_not_Nil [of cs] by (cases "splitLines cs") auto
qed

lemma findIndex_from_found:
  "list_ex p xs \<Longrightarrow> \<exists>n < length xs. findIndex_from p xs i = i + int n \<and>
     findIndex_from p (xs @ ys) i = i + int n"
proof (induction xs arbitrary: i)
  case Nil
  then show ?case by simp
next
  case (Cons x xs)
  show ?case
  proof (cases "p x")
    case True
    then show ?thesis by (intro exI [of _ 0]) simp
  next
    case False
    with Cons.prems have "list_ex p xs" by simp
    from Cons.IH [OF this, of "i + 1"] obtain n where
      "n < length xs" "findIndex_from p xs (i + 1) = i + 1 + int n"
      "findIndex_from p (xs @ ys) (i + 1) = i + 1 + int n" by blast
    with False show ?thesis by (intro exI [of _ "Suc n"]) simp
  qed
qed

lemma findIndex_from_missing:
  "\<not> list_ex p xs \<Longrightarrow> \<not> p y \<Longrightarrow>
     findIndex_from p xs i = -1 \<and> findIndex_from p (xs @ [y]) i = -1"
  by (induction xs arbitrary: i) auto

lemma slice_from_append:
  "n \<le> length xs \<Longrightarrow> slice_from (xs @ ys) (int n) = drop n xs @ ys"
  by (simp add: slice_from_def slice_index_def)

lemma slice_from_nat: "n \<le> length xs \<Longrightarrow> slice_from xs (int n) = drop n xs"
  by (simp add: slice_from_def slice_index_def)

lemma slice_append:
  assumes "a \<le> length xs" "b \<le> length xs"
  shows "slice (xs @ ys) (int a) (int b) = slice xs (int a) (int b)"
  using assms by (simp add: slice_nat min_def)

lemma table_LF:
  assumes "CR \<notin> set val"
  shows "field_followed_by_table_apply f t C ob header (val @ [LF]) =
         field_followed_by_table_apply f t C ob header val"
proof -
  obtain line0 rest where sl: "splitLines val = line0 # rest"
    using splitLines_not_Nil [of val] by (cases "splitLines val") auto
  have "slice_from (splitLines val @ [[]]) 1 = slice_from (splitLines val) 1 @ [[]]"
    using slice_from_append [of 1 "splitLines val" "[[]]"] slice_from_nat [of 1 "splitLines val"] sl
    by simp
  then have "table_lines (val @ [LF]) = table_lines val"
    by (simp add: table_lines_def splitLines_LF [OF assms] trim_Nil)
  with sl show ?thesis
    by (simp add: field_followed_by_table_apply_def splitLines_LF [OF assms])
qed

lemma starts_with_Nil: "p \<noteq> [] \<Longrightarrow> \<not> starts_with p []"
  by (simp add: starts_with_def)

lemma location_LF:
  assumes cr: "CR \<notin> set val" and contact: "has_contact val"
  shows "primary_secondary_location_apply lf cf ob header (val @ [LF]) =
         primary_secondary_location_apply lf cf ob header val"
proof -
  let ?ls = "splitLines val"
  let ?p = "starts_with ''Contact ''" and ?q = "starts_with ''Secondary Location''"
  have sl: "splitLines (val @ [LF]) = ?ls @ [[]]" by (rule splitLines_LF [OF cr])
  from contact have "list_ex ?p ?ls" by (simp add: has_contact_def)
  from findIndex_from_found [OF this, of 0 "[[]]"] obtain n where
    n: "n < length ?ls" "findIndex ?p ?ls = int n" "findIndex ?p (?ls @ [[]]) = int n"
    by (auto simp: findIndex_def)
  have cl: "filter (\<lambda>s. trim s \<noteq> []) (slice_from (?ls @ [[]]) (int n)) =
      filter (\<lambda>s. trim s \<noteq> []) (slice_from ?ls (int n))"
    using n(1) by (simp add: slice_from_append slice_from_nat trim_Nil)
  have "\<exists>a \<le> length ?ls. findIndex ?q ?ls + 1 = int a \<and> findIndex ?q (?ls @ [[]]) + 1 = int a"
  proof (cases "list_ex ?q ?ls")
    case True
    from findIndex_from_found [OF this, of 0 "[[]]"] obtain m where
      "m < length ?ls" "findIndex ?q ?ls = int m" "findIndex ?q (?ls @ [[]]) = int m"
      by (auto simp: findIndex_def)
    then show ?thesis by (intro exI [of _ "Suc m"]) simp
  next
    case False
    from findIndex_from_missing [OF False, of "[]" 0] show ?thesis
      by (intro exI [of _ 0]) (simp add: findIndex_def starts_with_Nil)
  qed
  then obtain a where a: "a \<le> length ?ls" "findIndex ?q ?ls + 1 = int a"
    "findIndex ?q (?ls @ [[]]) + 1 = int a" by blast
  have ll: "slice (?ls @ [[]]) (int a) (int n) = slice ?ls (int a) (int n)"
    using a(1) n(1) by (intro slice_append) simp_all
  show ?thesis
    by (simp add: primary_secondary_location_apply_def Let_def sl n a cl ll)
qed

lemma location_header_found:
  assumes "map_of (types d) typeName = Some td" "fields_by_header td = Some fbh"
    and "find (\<lambda>(h, fieldDef). h = header) fbh = Some (h, fd)"
    and "fd_type fd = ''primary_secondary_location''"
  shows "location_header d header"
proof -
  from assms(1) have "(typeName, td) \<in> set (types d)" by (rule map_of_SomeD)
  moreover from assms(3) have "(h, fd) \<in> set fbh" "h = header"
    by (auto simp: find_Some_iff in_set_conv_nth)
  ultimately show ?thesis
    using assms(2,4) unfolding location_header_def list_ex_iff
    by (intro bexI [of _ "(typeName, td)"]) (auto simp: or_empty_def intro!: bexI [of _ "(header, fd)"])
qed

lemma FIELD_TYPES_LF:
  assumes "CR \<notin> set val"
    and "fd_type fd = ''primary_secondary_location'' \<Longrightarrow> has_contact val"
  shows "apply_processor (FIELD_TYPES fd) ob header (Text (val @ [LF])) =
         apply_processor (FIELD_TYPES fd) ob header (Text val)"
  using assms
  by (auto simp: apply_processor_def FIELD_TYPES_def trimmed_def trimmed_apply_def trim_LF
      field_followed_by_table_def table_LF primary_secondary_location_def location_LF
      split: sum.splits)

lemma process_LF:
  assumes "header \<noteq> ''_meta''" "CR \<notin> set val"
    and "location_header d header \<Longrightarrow> has_contact val"
  shows "process d ob typeName header (Text (val @ [LF])) =
         process d ob typeName header (Text val)"
proof (cases "map_of (types d) typeName")
  case None
  with assms(1) show ?thesis by (simp add: process_def)
next
  case td: (Some td)
  show ?thesis
  proof (cases "type_fields td")
    case None
    with assms(1) td show ?thesis by (simp add: process_def)
  next
    case fs: (Some fs)
    show ?thesis
    proof (cases "find (\<lambda>(fld, h). h = header) fs")
      case (Some fh)
      with assms(1) td fs show ?thesis
        by (cases fh)
          (simp add: process_def apply_processor_def trimmed_def trimmed_apply_def trim_LF
            split: sum.splits)
    next
      case None
      show ?thesis
      proof (cases "fields_by_header td")
        case n: None
        with assms(1) td fs None show ?thesis by (simp add: process_def)
      next
        case fbh: (Some fbh)
        show ?thesis
        proof (cases "find (\<lambda>(h, fieldDef). h = header) fbh")
          case n: None
          with assms(1) td fs None fbh show ?thesis by (simp add: process_def)
        next
          case (Some hf)
          obtain h fd where hf: "hf = (h, fd)" by (cases hf)
          have "has_contact val" if "fd_type fd = ''primary_secondary_location''"
            using assms(3) location_header_found [OF td fbh Some [unfolded hf] that] by simp
          from FIELD_TYPES_LF [OF assms(2) this]
          show ?thesis using assms(1) td fs None fbh Some hf by (simp add: process_def)
        qed
      qed
    qed
  qed
qed

lemma process_all_entry:
  assumes "\<And>ob. process d ob typeName header c1 = process d ob typeName header c2"
  shows "process_all d typeName (xs @ (header, c1) # ys) ob =
         process_all d typeName (xs @ (header, c2) # ys) ob"
proof (induction xs arbitrary: ob)
  case Nil
  then show ?case by (simp add: assms)
next
  case (Cons x xs)
  then show ?case by (cases x) (simp split: sum.splits)
qed

lemma obj_replace_split:
  "k \<in> set (map fst ob) \<Longrightarrow> \<exists>xs ys. \<forall>c. obj_replace ob k c = xs @ (k, c) # ys"
proof (induction ob)
  case Nil
  then show ?case by simp
next
  case (Cons x ob)
  obtain k' v' where x: "x = (k', v')" by (cases x)
  show ?case
  proof (cases "k' = k")
    case True
    with x show ?thesis by (intro exI [of _ "[]"] exI [of _ ob]) simp
  next
    case False
    with Cons.prems x have "k \<in> set (map fst ob)" by auto
    from Cons.IH [OF this] obtain xs ys where "\<forall>c. obj_replace ob k c = xs @ (k, c) # ys"
      by blast
    with False x show ?thesis by (intro exI [of _ "x # xs"] exI [of _ ys]) simp
  qed
qed

lemma obj_create_split: "\<exists>xs ys. \<forall>c. obj_create ob k c = xs @ (k, c) # ys"
proof (induction ob)
  case Nil
  show ?case by (intro exI [of _ "[]"]) simp
next
  case (Cons x ob)
  obtain k' v' where x: "x = (k', v')" by (cases x)
  show ?case
  proof (cases "comes_before k k'")
    case True
    with x show ?thesis by (intro exI [of _ "[]"] exI [of _ "x # ob"]) simp
  next
    case False
    from Cons.IH obtain xs ys where "\<forall>c. obj_create ob k c = xs @ (k, c) # ys" by blast
    with False x show ?thesis by (intro exI [of _ "x # xs"] exI [of _ ys]) simp
  qed
qed

lemma obj_set_split: "\<exists>xs ys. \<forall>c. obj_set ob k c = xs @ (k, c) # ys"
proof (cases "k \<in> set (map fst ob)")
  case True
  with obj_replace_split [OF True] show ?thesis by (simp add: obj_set_def)
next
  case False
  with obj_create_split [of ob k] show ?thesis by (simp add: obj_set_def)
qed

lemma cookObject_LF:
  assumes "header \<noteq> ''_meta''" "CR \<notin> set val"
    and "location_header d header \<Longrightarrow> has_contact val"
    and "cookObject (obj_set object header (Text val)) objs d = Inr r"
  shows "cookObject (obj_set object header (Text (val @ [LF]))) objs d = Inr r"
proof -
  from obj_set_split [of object header] obtain xs ys where
    sp: "\<And>c. obj_set object header c = xs @ (header, c) # ys" by blast
  have pa: "process_all d typeName (xs @ (header, Text (val @ [LF])) # ys) ob =
      process_all d typeName (xs @ (header, Text val) # ys) ob" for typeName ob
    by (rule process_all_entry) (rule process_LF [OF assms(1-3)])
  from assms(4) show ?thesis
    by (auto simp: cookObject_def identifyObjectType_def sp pa split: sum.splits option.splits)
qed

lemma store_value:
  assumes "store object fld val = Inr r"
  shows "\<exists>object1. r = obj_set object1 fld (Text val) \<and>
           (\<forall>w. store object fld w = Inr (obj_set object1 fld (Text w)))"
  using assms by (auto simp: store_def split: option.splits if_splits sum.splits)

subsection \<open>Captured texts hold no carriage return\<close>

lemma search_chars: "search alts s p = Some (q, h) \<Longrightarrow> set h \<subseteq> set s"
proof (induction alts s p rule: search.induct)
  case (1 alts s p)
  show ?case
  proof (cases "find (\<lambda>h. prefix h s) alts")
    case (Some h')
    with "1.prems" have "h = h'" by simp
    with Some have "prefix h s" by (auto simp: find_Some_iff)
    then show ?thesis by (rule set_mono_prefix)
  next
    case None
    show ?thesis
    proof (cases s)
      case Nil
      with None "1.prems" show ?thesis by simp
    next
      case (Cons c cs)
      with None "1.prems" have "search alts cs (Suc p) = Some (q, h)" by simp
      from "1.IH" [OF None Cons this] Cons show ?thesis by auto
    qed
  qed
qed

lemma regex_exec_chars: "regex_exec alts s i = Some (q, h) \<Longrightarrow> set h \<subseteq> set s"
  using search_chars [of alts "drop i s" i q h] set_drop_subset [of i s]
  by (auto simp: regex_exec_def split: if_splits)

lemma allMatches_from_chars:
  assumes alts: "\<forall>h \<in> set alts. h \<noteq> []"
  shows "allMatches_from alts s i acc = Some ms \<Longrightarrow> \<forall>m \<in> set acc. set (snd m) \<subseteq> set s \<Longrightarrow>
           \<forall>m \<in> set ms. set (snd m) \<subseteq> set s"
proof (induction "Suc (length s) - i" arbitrary: i acc rule: less_induct)
  case less
  show ?case
  proof (cases "regex_exec alts s i")
    case None
    with less.prems(1) have "ms = acc" by (subst (asm) allMatches_from.simps) simp
    with less.prems(2) show ?thesis by simp
  next
    case (Some m)
    obtain q h where m: "m = (q, h)" by (cases m)
    from regex_exec_Some [OF Some [unfolded m]] alts
    have b: "h \<in> set alts" "h \<noteq> []" "i \<le> q" "q + length h \<le> length s" by auto
    from b(2) have "0 < length h" by simp
    with b(3,4) have d: "Suc (length s) - (q + length h) < Suc (length s) - i"
      by arith
    from less.prems(1) Some m
    have run: "allMatches_from alts s (q + length h) (acc @ [(q, h)]) = Some ms"
      by (subst (asm) allMatches_from.simps) simp
    from regex_exec_chars [OF Some [unfolded m]] less.prems(2)
    have "\<forall>m \<in> set (acc @ [(q, h)]). set (snd m) \<subseteq> set s" by simp
    from less.hyps [OF d run this] show ?thesis .
  qed
qed

lemma set_slice: "set (slice s a b) \<subseteq> set s"
  unfolding slice_def Let_def
  by (rule subset_trans [OF set_take_subset set_drop_subset])

lemma set_slice_from: "set (slice_from s a) \<subseteq> set s"
  unfolding slice_from_def by (rule set_drop_subset)

lemma split_regions_chars:
  "\<forall>m \<in> set ms. set (snd m) \<subseteq> set s \<Longrightarrow> \<forall>r \<in> set results. set (value r) \<subseteq> set s \<Longrightarrow>
   split_regions s ms c results = (c', rs) \<Longrightarrow> \<forall>r \<in> set rs. set (value r) \<subseteq> set s"
proof (induction ms arbitrary: c results)
  case Nil
  then show ?case by simp
next
  case (Cons m ms)
  obtain q h where m: "m = (q, h)" by (cases m)
  let ?results1 = "if c \<noteq> q
     then results @ [\<lparr>value = slice s (int c) (int q), isMatch = False\<rparr>] else results"
  from Cons.prems(1) m have h: "set h \<subseteq> set s" by simp
  with Cons.prems(2) set_slice [of s "int c" "int q"]
  have r: "\<forall>r \<in> set (?results1 @ [\<lparr>value = h, isMatch = True\<rparr>]). set (value r) \<subseteq> set s"
    by auto
  from Cons.prems(3) m
  have "split_regions s ms (q + length h) (?results1 @ [\<lparr>value = h, isMatch = True\<rparr>])
      = (c', rs)"
    by (simp add: Let_def)
  from Cons.IH [OF _ r this] Cons.prems(1) show ?case by simp
qed

lemma splitByMatches_chars:
  assumes alts: "\<forall>h \<in> set alts. h \<noteq> []"
    and parts: "splitByMatches alts s = Some parts"
  shows "\<forall>r \<in> set parts. set (value r) \<subseteq> set s"
proof -
  from parts obtain ms where ms: "allMatches alts s = Some ms"
    by (auto simp: splitByMatches_def split: option.splits)
  obtain c rs where sr: "split_regions s ms 0 [] = (c, rs)" by (cases "split_regions s ms 0 []")
  from allMatches_from_chars [OF alts ms [unfolded allMatches_def]]
  have "\<forall>m \<in> set ms. set (snd m) \<subseteq> set s" by simp
  from split_regions_chars [OF this _ sr] have rs: "\<forall>r \<in> set rs. set (value r) \<subseteq> set s"
    by simp
  from parts ms sr have "parts = (if c \<noteq> length s \<or> rs = []
      then rs @ [\<lparr>value = slice_from s (int c), isMatch = False\<rparr>] else rs)"
    by (simp add: splitByMatches_def)
  with rs set_slice_from [of s "int c"] show ?thesis by (auto split: if_splits)
qed

lemma walk_cr_free:
  "\<forall>r \<in> set parts. CR \<notin> set (value r) \<Longrightarrow> cr_free st \<Longrightarrow> walk st parts = Inr st' \<Longrightarrow>
     cr_free st'"
proof (induction st parts arbitrary: st' rule: walk.induct)
  case (1 st)
  then show ?case by simp
next
  case (2 st part rest)
  from "2.prems"(1) have vp: "CR \<notin> set (value part)"
    and rest: "\<forall>r \<in> set rest. CR \<notin> set (value r)" by simp_all
  show ?case
  proof (cases "isMatch part")
    case False
    show ?thesis
    proof (cases "multilineField st")
      case None
      show ?thesis
      proof (cases "trim (value part) \<noteq> []")
        case True
        with False None "2.prems"(3) obtain object where
          w: "warn (currObject st) ''ignored_text'' (ignored_message (value part)) = Inr object"
          and r: "walk (st\<lparr>currObject := object\<rparr>) rest = Inr st'"
          by (auto split: sum.splits)
        from None have "cr_free (st\<lparr>currObject := object\<rparr>)" by (simp add: cr_free_def)
        from "2.IH"(1) [OF False None True w rest this r] show ?thesis .
      next
        case blank: False
        with False None "2.prems"(3) have r: "walk st rest = Inr st'" by simp
        from "2.IH"(2) [OF False None blank rest "2.prems"(2) r] show ?thesis .
      qed
    next
      case (Some hv)
      obtain h v where hv: "hv = (h, v)" by (cases hv)
      with False Some "2.prems"(3)
      have r: "walk (st\<lparr>multilineField := Some (h, v @ value part)\<rparr>) rest = Inr st'" by simp
      from "2.prems"(2) Some hv vp
      have "cr_free (st\<lparr>multilineField := Some (h, v @ value part)\<rparr>)"
        by (simp add: cr_free_def)
      from "2.IH"(3) [OF False Some hv [symmetric] rest this r] show ?thesis .
    qed
  next
    case True
    with "2.prems"(3) obtain st1 where f: "finish_open st = Inr st1"
      by (auto split: sum.splits)
    show ?thesis
    proof (cases rest)
      case Nil
      with True f "2.prems"(3) have "st' = st1\<lparr>multilineField := Some (value part, [])\<rparr>"
        by simp
      then show ?thesis by (simp add: cr_free_def)
    next
      case (Cons next_part rest1)
      with True f "2.prems"(3)
      have r: "walk (st1\<lparr>multilineField := Some (value part, value next_part)\<rparr>) rest1 = Inr st'"
        by simp
      from rest Cons have "cr_free (st1\<lparr>multilineField := Some (value part, value next_part)\<rparr>)"
        and "\<forall>r \<in> set rest1. CR \<notin> set (value r)"
        by (simp_all add: cr_free_def)
      from "2.IH"(5) [OF _ f Cons this(2,1) r] True show ?thesis by simp
    qed
  qed
qed

lemma on_line_cr_free:
  assumes headers: "\<forall>h \<in> set (regex P). h \<noteq> []"
    and line: "one_line line" and st: "cr_free st"
    and step: "on_line P st line = Some (Inr st1)"
  shows "cr_free st1"
proof -
  from step obtain sep where sep: "recordSeparator (dictionary P) = Inr sep"
    by (auto simp: on_line_def split: sum.splits)
  show ?thesis
  proof (cases "regexp_test sep line")
    case True
    from separator_line [OF sep True step] show ?thesis by (simp add: cr_free_def)
  next
    case False
    let ?st = "case multilineField st of None \<Rightarrow> st
       | Some (header, val) \<Rightarrow> st\<lparr>multilineField := Some (header, val @ [LF])\<rparr>"
    from step sep False obtain parts where sp: "splitByMatches (regex P) line = Some parts"
      by (auto simp: on_line_def Let_def split: option.splits)
    with step sep False obtain st2 where w: "walk ?st parts = Inr st2"
      and st1: "multilineField st1 = multilineField st2"
      by (cases "walk ?st parts") (auto simp: on_line_def Let_def split: if_splits)
    from line have "CR \<notin> set line" by (auto simp: one_line_def list_all_iff)
    with splitByMatches_chars [OF headers sp]
    have parts: "\<forall>r \<in> set parts. CR \<notin> set (value r)" by auto
    from st have "cr_free ?st"
      by (auto simp: cr_free_def LF_def CR_def split: option.splits)
    from walk_cr_free [OF parts this w] st1 show ?thesis by (simp add: cr_free_def)
  qed
qed

lemma run_lines_cr_free:
  assumes headers: "\<forall>h \<in> set (regex P). h \<noteq> []"
  shows "list_all one_line lines \<Longrightarrow> cr_free st \<Longrightarrow> run_lines P st lines = Some (Inr st1) \<Longrightarrow>
           cr_free st1"
proof (induction lines arbitrary: st)
  case Nil
  then show ?case by simp
next
  case (Cons line lines)
  from Cons.prems(3) obtain st2 where s: "on_line P st line = Some (Inr st2)"
    "run_lines P st2 lines = Some (Inr st1)"
    by (auto split: option.splits sum.splits)
  from Cons.prems(1) have l: "one_line line" "list_all one_line lines" by simp_all
  from Cons.IH [OF l(2) on_line_cr_free [OF headers l(1) Cons.prems(2) s(1)] s(2)]
  show ?case .
qed

lemma readline_from_lines:
  "one_line cur \<Longrightarrow> list_all one_line (readline_from cur report)"
proof (induction cur report rule: readline_from.induct)
  case (1 cur)
  then show ?case by (simp add: one_line_def)
next
  case (2 cur c cs)
  have e: "one_line []" by (simp add: one_line_def)
  from "2.prems" have r: "one_line (rev cur)" by (simp add: one_line_def)
  show ?case
  proof (cases "c = LF")
    case True
    with "2.IH"(1) [OF True e] r show ?thesis by simp
  next
    case False
    show ?thesis
    proof (cases "c = CR")
      case True
      with "2.IH"(2) [OF False True e] False r show ?thesis by simp
    next
      case nc: False
      with False "2.prems" have "one_line (c # cur)" by (simp add: one_line_def)
      from "2.IH"(3) [OF False nc this] False nc show ?thesis by simp
    qed
  qed
qed

lemma readline_lines: "list_all one_line (readline report)"
  unfolding readline_def by (rule readline_from_lines) (simp add: one_line_def)

subsection \<open>An empty line before a separator\<close>

lemma splitByMatches_empty:
  assumes "[] \<notin> set alts"
  shows "splitByMatches alts [] = Some [\<lparr>value = [], isMatch = False\<rparr>]"
proof -
  from assms have "find (\<lambda>h. prefix h []) alts = None"
    by (auto simp: find_None_iff)
  then have "regex_exec alts [] 0 = None" by (simp add: regex_exec_def)
  then have "allMatches alts [] = Some []"
    unfolding allMatches_def by (subst allMatches_from.simps) simp
  then show ?thesis
    by (simp add: splitByMatches_def slice_from_def)
qed

lemma blank_line:
  assumes "recordSeparator (dictionary P) = Inr sep" "\<not> regexp_test sep []"
    and "[] \<notin> set (regex P)"
  shows "on_line P st [] =
           Some (Inr (case multilineField st of
                        None \<Rightarrow> st
                      | Some (header, val) \<Rightarrow> st\<lparr>multilineField := Some (header, val @ [LF])\<rparr>))"
  using assms
  by (cases "multilineField st")
    (auto simp: on_line_def splitByMatches_empty trim_Nil)

lemma on_close_LF:
  assumes open_field: "multilineField st = Some (header, val)"
    and header: "header \<noteq> ''_meta''" and cr: "CR \<notin> set val"
    and close: "on_close P st = Inr ra"
    and wf: "list_all (well_formed (dictionary P)) (flushed st)"
  shows "on_close P (st\<lparr>multilineField := Some (header, val @ [LF])\<rparr>) = Inr ra"
proof -
  from close open_field obtain raw0 st2 where
    st: "store (currObject st) header val = Inr raw0"
    and ck: "cook_current P (st\<lparr>currObject := raw0, multilineField := None\<rparr>) = Inr st2"
    and ra: "objects st2 = ra"
    by (auto simp: on_close_def finish_open_def finishMultilineField_def split: sum.splits)
  from store_value [OF st] obtain object1 where raw0: "raw0 = obj_set object1 header (Text val)"
    and st': "store (currObject st) header (val @ [LF]) =
        Inr (obj_set object1 header (Text (val @ [LF])))" by blast
  let ?raw1 = "obj_set object1 header (Text (val @ [LF]))"
  from obj_set_split [of object1 header] obtain xs ys where
    sp: "\<And>c. obj_set object1 header c = xs @ (header, c) # ys" by blast
  then have mem: "(header, Text val) \<in> set raw0" by (simp add: raw0)
  from isEmpty_holds [OF mem header] have ne: "\<not> isEmpty raw0" .
  then have ne1: "\<not> isEmpty ?raw1"
    by (simp add: isEmpty_def raw0 keys_obj_set [of object1 header "Text (val @ [LF])" "Text val"])
  from open_field st ne have "flushed st = [raw0]"
    by (simp add: flushed_def finish_open_def finishMultilineField_def)
  with wf have "well_formed (dictionary P) raw0" by simp
  with mem have lc: "has_contact val" if "location_header (dictionary P) header"
    using that by (auto simp: well_formed_def list_all_iff)
  from ck ne obtain objs printed where
    c0: "cookObject raw0 (objects st) (dictionary P) = Inr (objs, printed)"
    and st2: "st2 = (st\<lparr>currObject := raw0, multilineField := None\<rparr>)
        \<lparr>objects := objs, console := console st @ printed\<rparr>"
    by (auto simp: cook_current_def split: sum.splits)
  from cookObject_LF [OF header cr lc c0 [unfolded raw0]]
  have c1: "cookObject ?raw1 (objects st) (dictionary P) = Inr (objs, printed)" by simp
  from st2 ra have "objs = ra" by simp
  with open_field st' ne1 c1 show ?thesis
    by (simp add: on_close_def finish_open_def finishMultilineField_def cook_current_def)
qed

lemma cooked_run_last:
  "run_lines P st0 xs = Some (Inr st) \<Longrightarrow> set (flushed st) \<subseteq> set (cooked_run P st0 xs)"
proof (induction xs arbitrary: st0)
  case Nil
  then show ?case by simp
next
  case (Cons x xs)
  from Cons.prems obtain st1 where s: "on_line P st0 x = Some (Inr st1)"
    "run_lines P st1 xs = Some (Inr st)"
    by (auto split: option.splits sum.splits)
  from Cons.IH [OF s(2)] s(1) show ?case by auto
qed

lemma on_close_fresh: "on_close P (shift ra printed initial) = Inr ra"
  by (simp add: on_close_def finish_open_def cook_current_def isEmpty_def initial_def shift_def)

text \<open>
  An empty line after the lines of a report does not change its records, when the
  location captures of the report have their contact lines.
\<close>

lemma blank_line_parse:
  assumes sep: "recordSeparator (dictionary P) = Inr sep"
    and headers: "\<forall>h \<in> set (regex P). h \<noteq> [] \<and> h \<noteq> ''_meta''"
    and lines: "list_all one_line xs"
    and a: "parse_lines P xs = Some (Inr ra)"
    and wf: "list_all (well_formed (dictionary P)) (cooked_run P initial xs)"
  shows "parse_lines P (xs @ [[]]) = Some (Inr ra)"
proof -
  from a obtain sa where sa: "run_lines P initial xs = Some (Inr sa)" "on_close P sa = Inr ra"
    by (auto simp: parse_lines_def split: option.splits sum.splits)
  from headers have ne: "\<forall>h \<in> set (regex P). h \<noteq> []" by simp
  then have alts: "[] \<notin> set (regex P)" by auto
  have "\<exists>s1. on_line P sa [] = Some (Inr s1) \<and> on_close P s1 = Inr ra"
  proof (cases "regexp_test sep []")
    case True
    from separator_after_close [OF sep True sa(2)] on_close_fresh [of P ra]
    show ?thesis by auto
  next
    case False
    note step = blank_line [OF sep False alts, of sa]
    show ?thesis
    proof (cases "multilineField sa")
      case None
      with step sa(2) show ?thesis by simp
    next
      case (Some hv)
      obtain h v where hv: "hv = (h, v)" by (cases hv)
      from run_lines_scanning [OF headers scanning_initial sa(1)] Some hv
      have h: "h \<noteq> ''_meta''" by (simp add: scanning_def)
      have "cr_free initial" by (simp add: cr_free_def initial_def)
      from run_lines_cr_free [OF ne lines this sa(1)] Some hv
      have cr: "CR \<notin> set v" by (simp add: cr_free_def)
      from cooked_run_last [OF sa(1)] wf
      have "list_all (well_formed (dictionary P)) (flushed sa)"
        by (auto simp: list_all_iff)
      from on_close_LF [OF Some [unfolded hv] h cr sa(2) this] step Some hv
      show ?thesis by simp
    qed
  qed
  then obtain s1 where "on_line P sa [] = Some (Inr s1)" "on_close P s1 = Inr ra" by blast
  with sa(1) show ?thesis by (simp add: parse_lines_def run_lines_append)
qed

lemma readline_join_terminated:
  "A \<noteq> [] \<Longrightarrow> last A = LF \<Longrightarrow>
     readline_from cur (A @ LF # rest) = readline_from cur A @ [] # readline_from [] rest"
proof (induction cur A rule: readline_from.induct)
  case (1 cur)
  then show ?case by simp
next
  case (2 cur c cs)
  show ?case
  proof (cases "c = LF")
    case True
    show ?thesis
    proof (cases "cs = []")
      case e: True
      with True show ?thesis by simp
    next
      case False
      with "2.prems" have "last cs = LF" by simp
      from "2.IH"(1) [OF True False this] True show ?thesis by simp
    qed
  next
    case False
    with "2.prems" have cs: "cs \<noteq> []" "last cs = LF" by (auto split: if_splits)
    show ?thesis
    proof (cases "c = CR")
      case True
      let ?next = "if cs \<noteq> [] \<and> hd cs = LF then tl cs else cs"
      have nx: "(if cs @ LF # rest \<noteq> [] \<and> hd (cs @ LF # rest) = LF
                 then tl (cs @ LF # rest) else cs @ LF # rest) = ?next @ LF # rest"
        using cs by simp
      show ?thesis
      proof (cases "?next = []")
        case e: True
        with cs have "cs = [LF]" by (cases cs) (auto split: if_splits)
        with False True show ?thesis by simp
      next
        case ne: False
        with cs have "last ?next = LF" by (cases cs) (auto split: if_splits)
        from "2.IH"(2) [OF False True ne this] False True nx show ?thesis
          by (simp del: hd_append2 tl_append2)
      qed
    next
      case nc: False
      from "2.IH"(3) [OF False nc cs] False nc show ?thesis by simp
    qed
  qed
qed

lemma readline_concatenation_terminated:
  assumes "A = [] \<or> last A = LF" "one_line S"
  shows "readline (A @ [LF] @ S @ [LF] @ B) = readline A @ [] # S # readline B"
proof -
  have s: "readline_from [] (S @ LF # B) = S # readline_from [] B"
    using readline_one_line [OF assms(2), of "[]" B] by simp
  show ?thesis
  proof (cases "A = []")
    case True
    with s show ?thesis by (simp add: readline_def)
  next
    case False
    with assms(1) have "last A = LF" by simp
    from readline_join_terminated [OF False this, of "[]" "S @ LF # B"] s
    show ?thesis by (simp add: readline_def)
  qed
qed

text \<open>
  Claim C8. Let \<open>S\<close> be one line that the separator pattern matches, and let \<open>A\<close> and
  \<open>B\<close> be reports that are parsed without an error, under a dictionary none of whose
  headers is empty or \<^verbatim>\<open>_meta\<close>, such that every location capture of \<open>A\<close> has its contact
  block (\<open>well_formed\<close>) and no capture cooked in the parse of \<open>B\<close> is filed under a
  record of \<open>A\<close> (\<open>unrelated\<close>; this is so whenever no type of the dictionary declares
  an owner). Then parsing \<open>A\<close>, a line feed, \<open>S\<close>, a line feed and \<open>B\<close> gives the records
  of \<open>A\<close> followed by the records of \<open>B\<close>, whether or not \<open>A\<close> ends with a line
  terminator. (The reports may hold any number of records.)
\<close>

theorem parse_concatenation:
  assumes sep: "recordSeparator (dictionary P) = Inr sep" "regexp_test sep S" "one_line S"
    and headers: "\<forall>h \<in> set (regex P). h \<noteq> [] \<and> h \<noteq> ''_meta''"
    and a: "parse P A = Some (Inr ra)"
    and b: "parse P B = Some (Inr rb)"
    and wf: "list_all (well_formed (dictionary P)) (cooked P A)"
    and un: "list_all (unrelated (dictionary P) ra) (cooked P B)"
  shows "parse P (A @ [LF] @ S @ [LF] @ B) = Some (Inr (ra @ rb))"
proof (cases "A \<noteq> [] \<and> last A \<noteq> LF")
  case True
  then have A: "A \<noteq> []" "last A \<noteq> LF" by simp_all
  from a b have "parse_lines P (readline A) = Some (Inr ra)"
    "parse_lines P (readline B) = Some (Inr rb)"
    by (simp_all add: parse_def)
  from lines_concatenation [OF sep(1,2) this un [unfolded cooked_def]]
  show ?thesis
    unfolding parse_def readline_concatenation [OF A sep(3)] .
next
  case False
  then have A: "A = [] \<or> last A = LF" by auto
  from a have "parse_lines P (readline A) = Some (Inr ra)" by (simp add: parse_def)
  from blank_line_parse [OF sep(1) headers readline_lines this wf [unfolded cooked_def]]
  have a': "parse_lines P (readline A @ [[]]) = Some (Inr ra)" .
  from b have b': "parse_lines P (readline B) = Some (Inr rb)" by (simp add: parse_def)
  from lines_concatenation [OF sep(1,2) a' b' un [unfolded cooked_def]]
  show ?thesis
    unfolding parse_def readline_concatenation_terminated [OF A sep(3)] by simp
qed

lemma location_facts:
  "recordSeparator (dictionary location_parser) = Inr DEFAULT_RECORD_SEPARATOR
   \<and> regexp_test DEFAULT_RECORD_SEPARATOR ''__''
   \<and> one_line ''__''
   \<and> list_all (\<lambda>h. h \<noteq> [] \<and> h \<noteq> ''_meta'') (regex location_parser)
   \<and> parse location_parser report_c
       = Some (Inr [JObj [(''contacts'',
                            JArr [JObj [(''name'', JStr ''Ann''), (''phone'', JStr ''1'')]]),
                          (''loc'', JStr ''abc'')]])
   \<and> parse location_parser report_b
       = Some (Inr [JObj [(''contacts'',
                            JArr [JObj [(''name'', JStr ''Ann''), (''phone'', JNull)]]),
                          (''loc'', JStr [])]])
   \<and> list_all (well_formed (dictionary location_parser)) (cooked location_parser report_c)
   \<and> list_all (unrelated (dictionary location_parser)
         [JObj [(''contacts'', JArr [JObj [(''name'', JStr ''Ann''), (''phone'', JStr ''1'')]]),
                (''loc'', JStr ''abc'')]])
       (cooked location_parser report_b)
   \<and> OrderParser location_dict = Inr location_parser
   \<and> last report_c = LF"
  by code_simp

lemma owner_facts:
  "recordSeparator (dictionary owner_parser) = Inr DEFAULT_RECORD_SEPARATOR
   \<and> list_all (\<lambda>h. h \<noteq> [] \<and> h \<noteq> ''_meta'') (regex owner_parser)
   \<and> parse owner_parser ''Foo: 1'' = Some (Inr [JObj [(''foo'', JStr ''1'')]])
   \<and> parse owner_parser orphan_text = Some (Inr [])
   \<and> list_all (well_formed (dictionary owner_parser)) (cooked owner_parser ''Foo: 1'')
   \<and> list_all (unrelated (dictionary owner_parser) [JObj [(''foo'', JStr ''1'')]])
         (cooked owner_parser orphan_text)
   \<and> OrderParser owner_dict = Inr owner_parser"
  by code_simp

text \<open>
  Claim C8 on two joined reports: under \<open>location_dict\<close> a report that ends with a
  line feed and a second report; under \<open>owner_dict\<close> an order and a suborder of
  another order.
\<close>

theorem parse_concatenation_witness:
  "parse location_parser (report_c @ [LF] @ ''__'' @ [LF] @ report_b)
     = Some (Inr ([JObj [(''contacts'',
                            JArr [JObj [(''name'', JStr ''Ann''), (''phone'', JStr ''1'')]]),
                          (''loc'', JStr ''abc'')]]
                  @ [JObj [(''contacts'',
                            JArr [JObj [(''name'', JStr ''Ann''), (''phone'', JNull)]]),
                          (''loc'', JStr [])]]))
   \<and> parse owner_parser (''Foo: 1'' @ [LF] @ ''__'' @ [LF] @ orphan_text)
       = Some (Inr ([JObj [(''foo'', JStr ''1'')]] @ []))"
proof -
  note f = location_facts and g = owner_facts
  have h1: "\<forall>h \<in> set (regex location_parser). h \<noteq> [] \<and> h \<noteq> ''_meta''"
    using f by (simp add: list_all_iff)
  have h2: "\<forall>h \<in> set (regex owner_parser). h \<noteq> [] \<and> h \<noteq> ''_meta''"
    using g by (simp add: list_all_iff)
  have a: "parse location_parser (report_c @ [LF] @ ''__'' @ [LF] @ report_b)
     = Some (Inr ([JObj [(''contacts'',
                            JArr [JObj [(''name'', JStr ''Ann''), (''phone'', JStr ''1'')]]),
                          (''loc'', JStr ''abc'')]]
                  @ [JObj [(''contacts'',
                            JArr [JObj [(''name'', JStr ''Ann''), (''phone'', JNull)]]),
                          (''loc'', JStr [])]]))"
    by (rule parse_concatenation [where sep = DEFAULT_RECORD_SEPARATOR, OF _ _ _ h1])
      (simp_all only: f)
  have b: "parse owner_parser (''Foo: 1'' @ [LF] @ ''__'' @ [LF] @ orphan_text)
       = Some (Inr ([JObj [(''foo'', JStr ''1'')]] @ []))"
    by (rule parse_concatenation [where sep = DEFAULT_RECORD_SEPARATOR, OF _ _ _ h2])
      (simp_all only: f g)
  from a b show ?thesis by (rule conjI)
qed

text \<open>
  The contact block is needed: \<open>report_a\<close> ends with a line feed and its location
  capture has no contact line. Joined to a separator by one more line feed the
  capture has an empty last line, and the location processor, which finds no contact
  line and then counts from the end of the capture, reads \<^verbatim>\<open>abc\<close> as the location, where
  the record of \<open>report_a\<close> alone has the empty location.
\<close>

lemma contact_lines_needed:
  "parse_with location_dict report_a
     = Some (Inr [JObj [(''contacts'', JArr []), (''loc'', JStr [])]])
   \<and> \<not> list_all (well_formed (FieldDictionary location_dict)) (cooked location_parser report_a)
   \<and> parse_with location_dict (report_a @ [LF] @ ''__'' @ [LF] @ report_b)
       = Some (Inr [JObj [(''contacts'', JArr []), (''loc'', JStr ''abc'')],
                    JObj [(''contacts'',
                            JArr [JObj [(''name'', JStr ''Ann''), (''phone'', JNull)]]),
                          (''loc'', JStr [])]])"
  by code_simp

end
